theory Spec2Isabelle
  imports Main "HOL-Library.AList"
begin

section \<open>Strings\<close>

text \<open>
  The JavaScript string operations the store layer applies to keys:
  \<^verbatim>\<open>key.includes(sub)\<close> and \<^verbatim>\<open>key.replace(pat, rep)\<close> (first occurrence only), and
  the glob matching of the store's key enumeration, where \<^verbatim>\<open>*\<close> stands for any run of
  characters (the only pattern the code uses is \<^verbatim>\<open>function:*\<close>).
\<close>

definition starts_with :: "string \<Rightarrow> string \<Rightarrow> bool" where
  "starts_with pat k = (take (length pat) k = pat)"

definition ends_with :: "string \<Rightarrow> string \<Rightarrow> bool" where
  "ends_with suf k = (length suf \<le> length k \<and> drop (length k - length suf) k = suf)"

fun str_includes :: "string \<Rightarrow> string \<Rightarrow> bool" where
  "str_includes [] sub = (sub = [])"
| "str_includes (c # cs) sub = (starts_with sub (c # cs) \<or> str_includes cs sub)"

fun str_replace :: "string \<Rightarrow> string \<Rightarrow> string \<Rightarrow> string" where
  "str_replace [] pat rep = (if pat = [] then rep else [])"
| "str_replace (c # cs) pat rep =
     (if starts_with pat (c # cs) then rep @ drop (length pat) (c # cs)
      else c # str_replace cs pat rep)"

fun glob_match :: "string \<Rightarrow> string \<Rightarrow> bool" where
  "glob_match [] k = (k = [])"
| "glob_match (p # ps) [] = (p = CHR ''*'' \<and> glob_match ps [])"
| "glob_match (p # ps) (c # cs) =
     (if p = CHR ''*'' then glob_match ps (c # cs) \<or> glob_match (p # ps) cs
      else p = c \<and> glob_match ps cs)"

section \<open>The key-value store\<close>

text \<open>
  The store engine is an external collaborator (Redis behind the ioredis client). It is
  modelled by the commands the code sends: a keyspace of typed values (hashes and sets), a
  command on a key of the wrong type fails, every command fails while the connection is
  down, and a key whose hash or set becomes empty disappears. Keys are kept in insertion
  order, which is the order the cursor enumeration yields them in; a cursor is the index the
  next page starts at, and \<open>0\<close> is the reserved start/end cursor \<^verbatim>\<open>'0'\<close>.

  Field values keep the JavaScript value handed to the client (a string, a number, or the
  parameter list that \<^verbatim>\<open>JSON.stringify\<close> encodes and \<^verbatim>\<open>JSON.parse\<close> reads back).
\<close>

datatype field_value = Str string | Num int | Json "string list"

datatype redis_value = Hash "(string \<times> field_value) list" | SetV "string list"

datatype error = WrongType | ConnectionLost | SyntaxError | ReadError | ParserError

record store =
  connected :: bool
  db :: "(string \<times> redis_value) list"

definition lookup :: "store \<Rightarrow> string \<Rightarrow> redis_value option" where
  "lookup s k = map_of (db s) k"

definition merge_fields ::
  "(string \<times> field_value) list \<Rightarrow> (string \<times> field_value) list \<Rightarrow> (string \<times> field_value) list" where
  "merge_fields h fvs = fold (\<lambda>(f, v). AList.update f v) fvs h"

definition hset :: "store \<Rightarrow> string \<Rightarrow> (string \<times> field_value) list \<Rightarrow> error + store" where
  "hset s k fvs =
     (if \<not> connected s then Inl ConnectionLost
      else case lookup s k of
        None \<Rightarrow> Inr (s\<lparr>db := AList.update k (Hash (merge_fields [] fvs)) (db s)\<rparr>)
      | Some (Hash h) \<Rightarrow> Inr (s\<lparr>db := AList.update k (Hash (merge_fields h fvs)) (db s)\<rparr>)
      | Some (SetV xs) \<Rightarrow> Inl WrongType)"

definition hget :: "store \<Rightarrow> string \<Rightarrow> string \<Rightarrow> error + field_value option" where
  "hget s k f =
     (if \<not> connected s then Inl ConnectionLost
      else case lookup s k of
        None \<Rightarrow> Inr None
      | Some (Hash h) \<Rightarrow> Inr (map_of h f)
      | Some (SetV xs) \<Rightarrow> Inl WrongType)"

definition hgetall :: "store \<Rightarrow> string \<Rightarrow> error + (string \<times> field_value) list" where
  "hgetall s k =
     (if \<not> connected s then Inl ConnectionLost
      else case lookup s k of
        None \<Rightarrow> Inr []
      | Some (Hash h) \<Rightarrow> Inr h
      | Some (SetV xs) \<Rightarrow> Inl WrongType)"

definition hlen :: "store \<Rightarrow> string \<Rightarrow> error + nat" where
  "hlen s k =
     (if \<not> connected s then Inl ConnectionLost
      else case lookup s k of
        None \<Rightarrow> Inr 0
      | Some (Hash h) \<Rightarrow> Inr (length h)
      | Some (SetV xs) \<Rightarrow> Inl WrongType)"

definition hdel :: "store \<Rightarrow> string \<Rightarrow> string \<Rightarrow> error + store" where
  "hdel s k f =
     (if \<not> connected s then Inl ConnectionLost
      else case lookup s k of
        None \<Rightarrow> Inr s
      | Some (Hash h) \<Rightarrow>
          (let h' = AList.delete f h
           in if h' = [] then Inr (s\<lparr>db := AList.delete k (db s)\<rparr>)
              else Inr (s\<lparr>db := AList.update k (Hash h') (db s)\<rparr>))
      | Some (SetV xs) \<Rightarrow> Inl WrongType)"

definition sadd :: "store \<Rightarrow> string \<Rightarrow> string \<Rightarrow> error + store" where
  "sadd s k m =
     (if \<not> connected s then Inl ConnectionLost
      else case lookup s k of
        None \<Rightarrow> Inr (s\<lparr>db := AList.update k (SetV [m]) (db s)\<rparr>)
      | Some (SetV xs) \<Rightarrow>
          Inr (s\<lparr>db := AList.update k (SetV (if m \<in> set xs then xs else xs @ [m])) (db s)\<rparr>)
      | Some (Hash h) \<Rightarrow> Inl WrongType)"

definition smembers :: "store \<Rightarrow> string \<Rightarrow> error + string list" where
  "smembers s k =
     (if \<not> connected s then Inl ConnectionLost
      else case lookup s k of
        None \<Rightarrow> Inr []
      | Some (SetV xs) \<Rightarrow> Inr xs
      | Some (Hash h) \<Rightarrow> Inl WrongType)"

definition del :: "store \<Rightarrow> string \<Rightarrow> error + store" where
  "del s k =
     (if \<not> connected s then Inl ConnectionLost
      else Inr (s\<lparr>db := AList.delete k (db s)\<rparr>))"

definition scan :: "store \<Rightarrow> nat \<Rightarrow> string \<Rightarrow> nat \<Rightarrow> error + (nat \<times> string list)" where
  "scan s cursor pattern count =
     (if \<not> connected s then Inl ConnectionLost
      else if count = 0 then Inl SyntaxError
      else let ks = map fst (db s);
               page = take count (drop cursor ks);
               next = cursor + count
           in Inr (if length ks \<le> next then 0 else next, filter (glob_match pattern) page))"

definition empty_store :: store where
  "empty_store = \<lparr>connected = True, db = []\<rparr>"

section \<open>RedisStore\<close>

text \<open>
  The storage layer of the source. Logging is left out. \<^verbatim>\<open>Date.now()\<close> is an input
  \<open>now\<close> of every operation that reads the clock. An operation that can throw returns
  the error together with the store as the commands before the failing one left it.
\<close>

definition fn_key :: "string \<Rightarrow> string" where
  "fn_key functionName = ''function:'' @ functionName"

definition calls_key :: "string \<Rightarrow> string" where
  "calls_key functionName = ''function:'' @ functionName @ '':calls''"

definition called_by_key :: "string \<Rightarrow> string" where
  "called_by_key functionName = ''function:'' @ functionName @ '':called_by''"

definition file_meta_key :: "string \<Rightarrow> string" where
  "file_meta_key filePath = ''file:'' @ filePath @ '':meta''"

text \<open>The metadata object passed to \<^verbatim>\<open>setFunction\<close>; \<open>None\<close> is \<^verbatim>\<open>undefined\<close>.\<close>

record metadata =
  md_file :: string
  md_line :: int
  md_endLine :: "int option"
  md_params :: "string list option"
  md_isAsync :: bool
  md_isExported :: bool
  md_type :: "string option"

definition function_fields :: "metadata \<Rightarrow> int \<Rightarrow> (string \<times> field_value) list" where
  "function_fields m now =
     [(''file'', Str (md_file m)),
      (''line'', Num (md_line m)),
      (''endLine'', Num (case md_endLine m of None \<Rightarrow> md_line m
                         | Some e \<Rightarrow> if e = 0 then md_line m else e)),
      (''params'', Json (case md_params m of None \<Rightarrow> [] | Some ps \<Rightarrow> ps)),
      (''isAsync'', Str (if md_isAsync m then ''1'' else ''0'')),
      (''isExported'', Str (if md_isExported m then ''1'' else ''0'')),
      (''type'', Str (case md_type m of None \<Rightarrow> ''function''
                      | Some t \<Rightarrow> if t = [] then ''function'' else t)),
      (''lastIndexed'', Num now)]"

definition setFunction :: "store \<Rightarrow> string \<Rightarrow> metadata \<Rightarrow> int \<Rightarrow> error + store" where
  "setFunction s functionName m now = hset s (fn_key functionName) (function_fields m now)"

text \<open>
  What \<^verbatim>\<open>getFunction\<close> returns. A number is stored as the string JavaScript writes for
  it and read back by \<^verbatim>\<open>parseInt\<close>. Below \<open>10\<^sup>2\<^sup>1\<close> in magnitude that string is the
  decimal numeral, which \<^verbatim>\<open>parseInt\<close> reads back as the number. From \<open>10\<^sup>2\<^sup>1\<close> on it is in
  exponent notation, of which \<^verbatim>\<open>parseInt\<close> reads only the digits before the point or the
  exponent: \<open>ExponentHead n\<close> stands for that leading part of the notation of \<open>n\<close>.
  \<open>NaN\<close> is the reading of a field that holds no number. \<open>fi_file\<close> and \<open>fi_type\<close>
  are the stored fields as they are.
\<close>

datatype js_number = NaN | Number int | ExponentHead int

record fn_info =
  fi_file :: "field_value option"
  fi_line :: js_number
  fi_endLine :: js_number
  fi_params :: "string list"
  fi_isAsync :: bool
  fi_isExported :: bool
  fi_type :: "field_value option"
  fi_lastIndexed :: js_number

definition read_number :: "int \<Rightarrow> js_number" where
  "read_number n = (if \<bar>n\<bar> < 10 ^ 21 then Number n else ExponentHead n)"

fun parseInt :: "field_value option \<Rightarrow> js_number" where
  "parseInt (Some (Num n)) = read_number n"
| "parseInt _ = NaN"

fun json_parse :: "field_value option \<Rightarrow> string list" where
  "json_parse (Some (Json ps)) = ps"
| "json_parse _ = []"

definition getFunction :: "store \<Rightarrow> string \<Rightarrow> fn_info option" where
  "getFunction s functionName =
     (case hgetall s (fn_key functionName) of
        Inl e \<Rightarrow> None
      | Inr data \<Rightarrow>
          if data = [] then None
          else Some \<lparr>fi_file = map_of data ''file'',
                     fi_line = parseInt (map_of data ''line''),
                     fi_endLine = parseInt (map_of data ''endLine''),
                     fi_params = json_parse (map_of data ''params''),
                     fi_isAsync = (map_of data ''isAsync'' = Some (Str ''1'')),
                     fi_isExported = (map_of data ''isExported'' = Some (Str ''1'')),
                     fi_type = map_of data ''type'',
                     fi_lastIndexed = parseInt (map_of data ''lastIndexed'')\<rparr>)"

text \<open>
  The metadata as \<^verbatim>\<open>getFunction\<close> returns it when the numbers \<^verbatim>\<open>setFunction\<close> stored
  (line, end line and clock reading) are below \<open>10\<^sup>2\<^sup>1\<close> in magnitude, and so written in
  decimal.
\<close>

definition decimal_numbers :: "metadata \<Rightarrow> int \<Rightarrow> bool" where
  "decimal_numbers m now =
     (\<bar>md_line m\<bar> < 10 ^ 21 \<and>
      (case md_endLine m of None \<Rightarrow> True | Some e \<Rightarrow> \<bar>e\<bar> < 10 ^ 21) \<and>
      \<bar>now\<bar> < 10 ^ 21)"

definition stored_info :: "metadata \<Rightarrow> int \<Rightarrow> fn_info" where
  "stored_info m now =
     \<lparr>fi_file = Some (Str (md_file m)),
      fi_line = Number (md_line m),
      fi_endLine = Number (case md_endLine m of None \<Rightarrow> md_line m
                           | Some e \<Rightarrow> if e = 0 then md_line m else e),
      fi_params = (case md_params m of None \<Rightarrow> [] | Some ps \<Rightarrow> ps),
      fi_isAsync = md_isAsync m,
      fi_isExported = md_isExported m,
      fi_type = Some (Str (case md_type m of None \<Rightarrow> ''function''
                           | Some t \<Rightarrow> if t = [] then ''function'' else t)),
      fi_lastIndexed = Number now\<rparr>"

definition addFunctionCall :: "store \<Rightarrow> string \<Rightarrow> string \<Rightarrow> error option \<times> store" where
  "addFunctionCall s callerFunction calledFunction =
     (case sadd s (calls_key callerFunction) calledFunction of
        Inl e \<Rightarrow> (Some e, s)
      | Inr s1 \<Rightarrow>
          (case sadd s1 (called_by_key calledFunction) callerFunction of
             Inl e \<Rightarrow> (Some e, s1)
           | Inr s2 \<Rightarrow> (None, s2)))"

definition getFunctionCalls :: "store \<Rightarrow> string \<Rightarrow> string list" where
  "getFunctionCalls s functionName =
     (case smembers s (calls_key functionName) of Inl e \<Rightarrow> [] | Inr calls \<Rightarrow> calls)"

definition getFunctionCallers :: "store \<Rightarrow> string \<Rightarrow> string list" where
  "getFunctionCallers s functionName =
     (case smembers s (called_by_key functionName) of Inl e \<Rightarrow> [] | Inr callers \<Rightarrow> callers)"

definition getFileHash :: "store \<Rightarrow> string \<Rightarrow> field_value option" where
  "getFileHash s filePath =
     (case hget s ''file:metadata'' filePath of Inl e \<Rightarrow> None | Inr h \<Rightarrow> h)"

definition setFileHash :: "store \<Rightarrow> string \<Rightarrow> string \<Rightarrow> int \<Rightarrow> error option \<times> store" where
  "setFileHash s filePath h now =
     (case hset s ''file:metadata'' [(filePath, Str h)] of
        Inl e \<Rightarrow> (Some e, s)
      | Inr s1 \<Rightarrow>
          (case hset s1 (file_meta_key filePath) [(''lastIndexed'', Num now)] of
             Inl e \<Rightarrow> (Some e, s1)
           | Inr s2 \<Rightarrow> (None, s2)))"

text \<open>
  \<^verbatim>\<open>shouldReindex\<close>: the content digest (MD5, external) is the parameter \<open>md5\<close>. A stored
  fingerprint that is absent or the empty string is falsy.
\<close>

definition shouldReindex :: "(string \<Rightarrow> string) \<Rightarrow> store \<Rightarrow> string \<Rightarrow> string \<Rightarrow> bool" where
  "shouldReindex md5 s filePath content =
     (case getFileHash s filePath of
        None \<Rightarrow> True
      | Some storedHash \<Rightarrow>
          if storedHash = Str [] then True else Str (md5 content) \<noteq> storedHash)"

text \<open>
  \<^verbatim>\<open>deleteFileData\<close>. The scan loop collects the names whose record has
  \<^verbatim>\<open>file === filePath\<close>, skipping every key for which \<^verbatim>\<open>key.includes(':')\<close> holds;
  the collected names are then deleted, and the file's two records after them.
\<close>

fun collect_file_functions :: "store \<Rightarrow> string \<Rightarrow> string list \<Rightarrow> string list \<Rightarrow> string list" where
  "collect_file_functions s filePath [] functions = functions"
| "collect_file_functions s filePath (key # keys) functions =
     (if str_includes key '':'' then collect_file_functions s filePath keys functions
      else case getFunction s (str_replace key ''function:'' []) of
        None \<Rightarrow> collect_file_functions s filePath keys functions
      | Some m \<Rightarrow>
          if fi_file m = Some (Str filePath)
          then collect_file_functions s filePath keys
                 (functions @ [str_replace key ''function:'' []])
          else collect_file_functions s filePath keys functions)"

function scan_file_functions :: "store \<Rightarrow> string \<Rightarrow> nat \<Rightarrow> string list \<Rightarrow> error + string list" where
  "scan_file_functions s filePath scanCursor functions =
     (case scan s scanCursor ''function:*'' 100 of
        Inl e \<Rightarrow> Inl e
      | Inr page \<Rightarrow>
          if fst page = 0
          then Inr (collect_file_functions s filePath (snd page) functions)
          else scan_file_functions s filePath (fst page)
                 (collect_file_functions s filePath (snd page) functions))"
  by pat_completeness auto
termination
  by (relation "measure (\<lambda>(s, filePath, scanCursor, functions). length (db s) - scanCursor)")
     (auto simp: scan_def Let_def split: if_splits)

declare scan_file_functions.simps [simp del]

fun delete_functions :: "store \<Rightarrow> string list \<Rightarrow> error option \<times> store" where
  "delete_functions s [] = (None, s)"
| "delete_functions s (functionName # rest) =
     (case del s (fn_key functionName) of
        Inl e \<Rightarrow> (Some e, s)
      | Inr s1 \<Rightarrow>
          (case del s1 (calls_key functionName) of
             Inl e \<Rightarrow> (Some e, s1)
           | Inr s2 \<Rightarrow>
               (case del s2 (called_by_key functionName) of
                  Inl e \<Rightarrow> (Some e, s2)
                | Inr s3 \<Rightarrow> delete_functions s3 rest)))"

definition deleteFileData :: "store \<Rightarrow> string \<Rightarrow> error option \<times> store" where
  "deleteFileData s filePath =
     (case scan_file_functions s filePath 0 [] of
        Inl e \<Rightarrow> (Some e, s)
      | Inr functions \<Rightarrow>
          (case delete_functions s functions of
             (Some e, s1) \<Rightarrow> (Some e, s1)
           | (None, s1) \<Rightarrow>
               (case hdel s1 ''file:metadata'' filePath of
                  Inl e \<Rightarrow> (Some e, s1)
                | Inr s2 \<Rightarrow>
                    (case del s2 (file_meta_key filePath) of
                       Inl e \<Rightarrow> (Some e, s2)
                     | Inr s3 \<Rightarrow> (None, s3)))))"

text \<open>
  \<^verbatim>\<open>getAllFunctions\<close> returns one page: the next cursor and the names of the keys of
  the page that contain neither \<^verbatim>\<open>:calls\<close> nor \<^verbatim>\<open>:called_by\<close>.
\<close>

definition is_function_key :: "string \<Rightarrow> bool" where
  "is_function_key key = (\<not> str_includes key '':calls'' \<and> \<not> str_includes key '':called_by'')"

definition getAllFunctions :: "store \<Rightarrow> nat \<Rightarrow> nat \<Rightarrow> nat \<times> string list" where
  "getAllFunctions s cursor count =
     (case scan s cursor ''function:*'' count of
        Inl e \<Rightarrow> (0, [])
      | Inr page \<Rightarrow>
          (fst page, map (\<lambda>key. str_replace key ''function:'' [])
                         (filter is_function_key (snd page))))"

record stats =
  filesIndexed :: nat
  functionsIndexed :: nat
  timestamp :: int

function count_functions :: "store \<Rightarrow> nat \<Rightarrow> nat \<Rightarrow> error + nat" where
  "count_functions s scanCursor functionCount =
     (case scan s scanCursor ''function:*'' 100 of
        Inl e \<Rightarrow> Inl e
      | Inr page \<Rightarrow>
          if fst page = 0
          then Inr (functionCount + length (filter is_function_key (snd page)))
          else count_functions s (fst page)
                 (functionCount + length (filter is_function_key (snd page))))"
  by pat_completeness auto
termination
  by (relation "measure (\<lambda>(s, scanCursor, functionCount). length (db s) - scanCursor)")
     (auto simp: scan_def Let_def split: if_splits)

declare count_functions.simps [simp del]

definition getStats :: "store \<Rightarrow> int \<Rightarrow> stats" where
  "getStats s now =
     (case hlen s ''file:metadata'' of
        Inl e \<Rightarrow> \<lparr>filesIndexed = 0, functionsIndexed = 0, timestamp = now\<rparr>
      | Inr fileCount \<Rightarrow>
          (case count_functions s 0 0 of
             Inl e \<Rightarrow> \<lparr>filesIndexed = 0, functionsIndexed = 0, timestamp = now\<rparr>
           | Inr functionCount \<Rightarrow>
               \<lparr>filesIndexed = fileCount, functionsIndexed = functionCount, timestamp = now\<rparr>))"

section \<open>FunctionIndexer\<close>

text \<open>
  A function record as the parser hands it over; \<open>None\<close> is a property that is
  \<^verbatim>\<open>undefined\<close>. \<^verbatim>\<open>index\<close> writes each record's metadata and then its outgoing call
  edges, counting a record whose write throws as one error and going on with the next.
\<close>

record fn_record =
  fr_name :: string
  fr_line :: int
  fr_endLine :: "int option"
  fr_params :: "string list option"
  fr_calls :: "string list option"
  fr_isAsync :: bool
  fr_isExported :: bool
  fr_type :: "string option"

record index_result =
  indexed :: nat
  errors :: nat

fun add_function_calls :: "store \<Rightarrow> string \<Rightarrow> string list \<Rightarrow> error option \<times> store" where
  "add_function_calls s name [] = (None, s)"
| "add_function_calls s name (calledFunction # rest) =
     (case addFunctionCall s name calledFunction of
        (Some e, s1) \<Rightarrow> (Some e, s1)
      | (None, s1) \<Rightarrow> add_function_calls s1 name rest)"

definition indexFunction :: "store \<Rightarrow> string \<Rightarrow> fn_record \<Rightarrow> int \<Rightarrow> error option \<times> store" where
  "indexFunction s filePath fn now =
     (case setFunction s (fr_name fn)
             \<lparr>md_file = filePath, md_line = fr_line fn, md_endLine = fr_endLine fn,
              md_params = Some (case fr_params fn of None \<Rightarrow> [] | Some ps \<Rightarrow> ps),
              md_isAsync = fr_isAsync fn, md_isExported = fr_isExported fn,
              md_type = Some (case fr_type fn of None \<Rightarrow> ''function''
                              | Some t \<Rightarrow> if t = [] then ''function'' else t)\<rparr> now of
        Inl e \<Rightarrow> (Some e, s)
      | Inr s1 \<Rightarrow>
          (case fr_calls fn of
             None \<Rightarrow> (None, s1)
           | Some calls \<Rightarrow> add_function_calls s1 (fr_name fn) calls))"

fun index_loop ::
    "store \<Rightarrow> string \<Rightarrow> fn_record list \<Rightarrow> int \<Rightarrow> index_result \<Rightarrow> index_result \<times> store" where
  "index_loop s filePath [] now r = (r, s)"
| "index_loop s filePath (fn # fns) now r =
     (case indexFunction s filePath fn now of
        (None, s1) \<Rightarrow> index_loop s1 filePath fns now (r\<lparr>indexed := indexed r + 1\<rparr>)
      | (Some e, s1) \<Rightarrow> index_loop s1 filePath fns now (r\<lparr>errors := errors r + 1\<rparr>))"

definition index :: "store \<Rightarrow> string \<Rightarrow> fn_record list \<Rightarrow> int \<Rightarrow> index_result \<times> store" where
  "index s filePath functions now =
     (if functions = [] then (\<lparr>indexed = 0, errors = 0\<rparr>, s)
      else index_loop s filePath functions now \<lparr>indexed = 0, errors = 0\<rparr>)"

text \<open>
  The forward trace. A node is the object \<^verbatim>\<open>{function, dependencies, depth}\<close>. The
  recursive helper returns the children it pushed onto its node and the visited set as it
  left it; \<open>trace_calls\<close> is its \<^verbatim>\<open>for\<close> loop over the outgoing calls, which creates and
  pushes the child node before it recurses into it.
\<close>

datatype dep_node =
  DepNode (node_function: string) (node_dependencies: "dep_node list") (node_depth: int)

function traceDependenciesRecursive ::
    "store \<Rightarrow> string \<Rightarrow> string set \<Rightarrow> int \<Rightarrow> int \<Rightarrow> dep_node list \<times> string set"
  and trace_calls ::
    "store \<Rightarrow> string list \<Rightarrow> string set \<Rightarrow> int \<Rightarrow> int \<Rightarrow> dep_node list \<times> string set" where
  "traceDependenciesRecursive s functionName visited depth maxDepth =
     (if maxDepth \<le> depth \<or> functionName \<in> visited then ([], visited)
      else trace_calls s (getFunctionCalls s functionName) (insert functionName visited)
             depth maxDepth)"
| "trace_calls s [] visited depth maxDepth = ([], visited)"
| "trace_calls s (calledFunction # rest) visited depth maxDepth =
     (case traceDependenciesRecursive s calledFunction visited (depth + 1) maxDepth of
        (children, visited1) \<Rightarrow>
          (case trace_calls s rest visited1 depth maxDepth of
             (siblings, visited2) \<Rightarrow>
               (DepNode calledFunction children (depth + 1) # siblings, visited2)))"
  by pat_completeness auto
termination
  by (relation "measures [
       (\<lambda>x. case x of Inl (s, f, v, d, m) \<Rightarrow> 2 * nat (m - d)
                     | Inr (s, cs, v, d, m) \<Rightarrow> (if d < m then 2 * nat (m - d) - 1 else 1)),
       (\<lambda>x. case x of Inl (s, f, v, d, m) \<Rightarrow> 0 | Inr (s, cs, v, d, m) \<Rightarrow> length cs)]")
     auto

declare traceDependenciesRecursive.simps [simp del] trace_calls.simps [simp del]

definition traceDependencies :: "store \<Rightarrow> string \<Rightarrow> int \<Rightarrow> dep_node" where
  "traceDependencies s functionName maxDepth =
     DepNode functionName (fst (traceDependenciesRecursive s functionName {} 0 maxDepth)) 0"

text \<open>
  The reverse trace. \<open>affected\<close> is the JavaScript \<^verbatim>\<open>Set\<close>, kept as a list in insertion
  order (\<^verbatim>\<open>Array.from\<close> reads it in that order); \<open>affected_callers\<close> is the \<^verbatim>\<open>for\<close> loop.
\<close>

definition set_add :: "string list \<Rightarrow> string \<Rightarrow> string list" where
  "set_add xs x = (if x \<in> set xs then xs else xs @ [x])"

function findAffectedRecursive ::
    "store \<Rightarrow> string \<Rightarrow> string list \<Rightarrow> int \<Rightarrow> int \<Rightarrow> string list"
  and affected_callers ::
    "store \<Rightarrow> string list \<Rightarrow> string list \<Rightarrow> int \<Rightarrow> int \<Rightarrow> string list" where
  "findAffectedRecursive s functionName affected depth maxDepth =
     (if maxDepth \<le> depth \<or> functionName \<in> set affected then affected
      else affected_callers s (getFunctionCallers s functionName) affected depth maxDepth)"
| "affected_callers s [] affected depth maxDepth = affected"
| "affected_callers s (caller # rest) affected depth maxDepth =
     affected_callers s rest
       (findAffectedRecursive s caller (set_add affected caller) (depth + 1) maxDepth)
       depth maxDepth"
  by pat_completeness auto
termination
  by (relation "measures [
       (\<lambda>x. case x of Inl (s, f, a, d, m) \<Rightarrow> 2 * nat (m - d)
                     | Inr (s, cs, a, d, m) \<Rightarrow> (if d < m then 2 * nat (m - d) - 1 else 1)),
       (\<lambda>x. case x of Inl (s, f, a, d, m) \<Rightarrow> 0 | Inr (s, cs, a, d, m) \<Rightarrow> length cs)]")
     auto

declare findAffectedRecursive.simps [simp del] affected_callers.simps [simp del]

definition findAffectedFunctions :: "store \<Rightarrow> string \<Rightarrow> int \<Rightarrow> string list" where
  "findAffectedFunctions s functionName maxDepth =
     findAffectedRecursive s functionName [] 0 maxDepth"

section \<open>BatchIndexer\<close>

text \<open>
  \<^verbatim>\<open>batchIndexFunctions\<close> queues one \<^verbatim>\<open>hset\<close> and two \<^verbatim>\<open>sadd\<close> per call edge for every
  record and submits the queue at once. \<open>exec\<close> is the client's pipeline submission: every
  queued command runs in order, and a command that fails, on a key of the wrong type or
  because the connection is down, leaves its error in the result list without stopping the
  others; the submission itself resolves with that list and does not reject.
\<close>

record batch_fn =
  bf_name :: string
  bf_metadata :: metadata
  bf_calls :: "string list option"

datatype command = HSet string "(string \<times> field_value) list" | SAdd string string

fun run_command :: "store \<Rightarrow> command \<Rightarrow> error + store" where
  "run_command s (HSet k fvs) = hset s k fvs"
| "run_command s (SAdd k m) = sadd s k m"

fun run_commands :: "store \<Rightarrow> command list \<Rightarrow> error option list \<times> store" where
  "run_commands s [] = ([], s)"
| "run_commands s (c # cs) =
     (case run_command s c of
        Inl e \<Rightarrow> (case run_commands s cs of (rs, s') \<Rightarrow> (Some e # rs, s'))
      | Inr s1 \<Rightarrow> (case run_commands s1 cs of (rs, s') \<Rightarrow> (None # rs, s')))"

definition exec :: "store \<Rightarrow> command list \<Rightarrow> error + (error option list \<times> store)" where
  "exec s cs = Inr (run_commands s cs)"

definition call_commands :: "string \<Rightarrow> string \<Rightarrow> command list" where
  "call_commands name calledFunction =
     [SAdd (calls_key name) calledFunction, SAdd (called_by_key calledFunction) name]"

definition function_commands :: "batch_fn \<Rightarrow> int \<Rightarrow> command list" where
  "function_commands fn now =
     HSet (fn_key (bf_name fn)) (function_fields (bf_metadata fn) now)
     # (case bf_calls fn of
          None \<Rightarrow> []
        | Some calls \<Rightarrow> concat (map (call_commands (bf_name fn)) calls))"

definition batchIndexFunctions :: "store \<Rightarrow> batch_fn list \<Rightarrow> int \<Rightarrow> index_result \<times> store" where
  "batchIndexFunctions s functions now =
     (if functions = [] then (\<lparr>indexed = 0, errors = 0\<rparr>, s)
      else case exec s (concat (map (\<lambda>fn. function_commands fn now) functions)) of
        Inr (results, s') \<Rightarrow> (\<lparr>indexed = length functions, errors = 0\<rparr>, s')
      | Inl e \<Rightarrow> (\<lparr>indexed = 0, errors = length functions\<rparr>, s))"

section \<open>Parsers\<close>

text \<open>
  A parse result is whatever value the parser returns; \<^verbatim>\<open>validateResult\<close> tells apart a
  value that is not an object, an object whose \<^verbatim>\<open>functions\<close> is not an array, and an
  object with an array of function records. A parser is the pair of its \<^verbatim>\<open>canParse\<close> and
  \<^verbatim>\<open>parse\<close> methods; \<^verbatim>\<open>parse\<close> may throw.

  The JavaScript parser runs Babel (external) inside \<^verbatim>\<open>try\<close>: \<open>babel\<close> gives the
  function records extracted from a file, or \<open>None\<close> when parsing or traversal throws; the
  \<^verbatim>\<open>catch\<close> branch returns the empty result.
\<close>

datatype parse_result = NotAnObject | FunctionsNotAnArray | Functions "fn_record list"

record parser =
  canParse :: "string \<Rightarrow> bool"
  parse :: "string \<Rightarrow> string \<Rightarrow> error + parse_result"

fun validateResult :: "parse_result \<Rightarrow> bool" where
  "validateResult NotAnObject = False"
| "validateResult FunctionsNotAnArray = False"
| "validateResult (Functions fns) = True"

fun result_functions :: "parse_result \<Rightarrow> fn_record list" where
  "result_functions (Functions fns) = fns"
| "result_functions _ = []"

definition supportedExtensions :: "string list" where
  "supportedExtensions = [''.js'', ''.jsx'', ''.ts'', ''.tsx'', ''.mjs'', ''.cjs'']"

definition JavaScriptParser :: "(string \<Rightarrow> string \<Rightarrow> fn_record list option) \<Rightarrow> parser" where
  "JavaScriptParser babel =
     \<lparr>canParse = (\<lambda>filePath. list_ex (\<lambda>ext. ends_with ext filePath) supportedExtensions),
      parse = (\<lambda>filePath content.
                 case babel filePath content of
                   Some functions \<Rightarrow> Inr (Functions functions)
                 | None \<Rightarrow> Inr (Functions []))\<rparr>"

definition getParser :: "parser list \<Rightarrow> string \<Rightarrow> parser option" where
  "getParser parsers filePath = find (\<lambda>p. canParse p filePath) parsers"

section \<open>CodebaseIndexer\<close>

text \<open>
  The orchestrator. Its surroundings are the registered parsers, the file reader (which may
  throw) and the content digest. \<^verbatim>\<open>indexFile\<close> returns its result object or the error it
  throws; \<^verbatim>\<open>indexCodebase\<close> takes what the directory walk returned, runs \<^verbatim>\<open>indexFile\<close>
  on every file inside \<^verbatim>\<open>try\<close>/\<^verbatim>\<open>catch\<close>, and reads the statistics at the end. The
  progress display and the measured duration are left out.
\<close>

record indexer_env =
  parsers :: "parser list"
  readFile :: "string \<Rightarrow> error + string"
  getContentHash :: "string \<Rightarrow> string"

record options =
  force :: bool
  skipDelete :: bool

record file_result =
  skipped :: bool
  res_functionsIndexed :: nat
  res_errors :: nat

definition indexFile ::
    "indexer_env \<Rightarrow> store \<Rightarrow> string \<Rightarrow> options \<Rightarrow> int \<Rightarrow> (error + file_result) \<times> store" where
  "indexFile env s filePath opts now =
     (case getParser (parsers env) filePath of
        None \<Rightarrow> (Inr \<lparr>skipped = True, res_functionsIndexed = 0, res_errors = 0\<rparr>, s)
      | Some p \<Rightarrow>
          (case readFile env filePath of
             Inl e \<Rightarrow> (Inl e, s)
           | Inr content \<Rightarrow>
               if \<not> force opts \<and> \<not> shouldReindex (getContentHash env) s filePath content
               then (Inr \<lparr>skipped = True, res_functionsIndexed = 0, res_errors = 0\<rparr>, s)
               else
                 (case (if \<not> skipDelete opts then deleteFileData s filePath else (None, s)) of
                    (Some e, s1) \<Rightarrow> (Inl e, s1)
                  | (None, s1) \<Rightarrow>
                      (case parse p filePath content of
                         Inl e \<Rightarrow> (Inl e, s1)
                       | Inr parseResult \<Rightarrow>
                           if \<not> validateResult parseResult
                           then (Inr \<lparr>skipped = False, res_functionsIndexed = 0,
                                      res_errors = 1\<rparr>, s1)
                           else
                             (case index s1 filePath (result_functions parseResult) now of
                                (r, s2) \<Rightarrow>
                                  (case setFileHash s2 filePath
                                          (getContentHash env content) now of
                                     (Some e, s3) \<Rightarrow> (Inl e, s3)
                                   | (None, s3) \<Rightarrow>
                                       (Inr \<lparr>skipped = False,
                                             res_functionsIndexed = indexed r,
                                             res_errors = errors r\<rparr>, s3)))))))"

record run_results =
  filesProcessed :: nat
  filesSkipped :: nat
  run_functionsIndexed :: nat
  run_errors :: nat

fun index_files ::
    "indexer_env \<Rightarrow> store \<Rightarrow> string list \<Rightarrow> options \<Rightarrow> int \<Rightarrow> run_results
       \<Rightarrow> run_results \<times> store" where
  "index_files env s [] opts now t = (t, s)"
| "index_files env s (file # files) opts now t =
     (case indexFile env s file opts now of
        (Inr result, s1) \<Rightarrow>
          if skipped result
          then index_files env s1 files opts now (t\<lparr>filesSkipped := filesSkipped t + 1\<rparr>)
          else index_files env s1 files opts now
                 (t\<lparr>filesProcessed := filesProcessed t + 1,
                    run_functionsIndexed := run_functionsIndexed t + res_functionsIndexed result,
                    run_errors := run_errors t + res_errors result\<rparr>)
      | (Inl e, s1) \<Rightarrow>
          index_files env s1 files opts now (t\<lparr>run_errors := run_errors t + 1\<rparr>))"

definition no_results :: run_results where
  "no_results = \<lparr>filesProcessed = 0, filesSkipped = 0, run_functionsIndexed = 0, run_errors = 0\<rparr>"

definition indexCodebase ::
    "indexer_env \<Rightarrow> store \<Rightarrow> error + string list \<Rightarrow> options \<Rightarrow> int
       \<Rightarrow> (error + run_results \<times> stats option) \<times> store" where
  "indexCodebase env s walked opts now =
     (case walked of
        Inl e \<Rightarrow> (Inl e, s)
      | Inr files \<Rightarrow>
          if files = [] then (Inr (no_results, None), s)
          else (case index_files env s files opts now no_results of
                  (t, s1) \<Rightarrow> (Inr (t, Some (getStats s1 now)), s1)))"

text \<open>Whether a registered parser accepts the file.\<close>

definition has_parser :: "indexer_env \<Rightarrow> string \<Rightarrow> bool" where
  "has_parser env filePath = (getParser (parsers env) filePath \<noteq> None)"

text \<open>\<^verbatim>\<open>CodebaseIndexer.getAllFunctions\<close>: the pages of the store's enumeration, put together.\<close>

function all_functions_from :: "store \<Rightarrow> nat \<Rightarrow> string list \<Rightarrow> string list" where
  "all_functions_from s cursor allFunctions =
     (case getAllFunctions s cursor 100 of
        (next, functions) \<Rightarrow>
          if next = 0 then allFunctions @ functions
          else all_functions_from s next (allFunctions @ functions))"
  by pat_completeness auto
termination
  by (relation "measure (\<lambda>(s, cursor, allFunctions). length (db s) - cursor)")
     (auto simp: getAllFunctions_def scan_def Let_def split: if_splits)

declare all_functions_from.simps [simp del]

definition listAllFunctions :: "store \<Rightarrow> string list" where
  "listAllFunctions s = all_functions_from s 0 []"

section \<open>Sequences of store operations\<close>

text \<open>
  The writes of the core, and the store a sequence of them leaves behind when it starts
  from the empty store. An operation that throws half way leaves what it had written.
\<close>

datatype operation =
    SetFunction string metadata int
  | AddFunctionCall string string
  | BatchIndexFunctions "batch_fn list" int

fun apply_operation :: "store \<Rightarrow> operation \<Rightarrow> store" where
  "apply_operation s (SetFunction name m now) =
     (case setFunction s name m now of Inl e \<Rightarrow> s | Inr s' \<Rightarrow> s')"
| "apply_operation s (AddFunctionCall caller callee) = snd (addFunctionCall s caller callee)"
| "apply_operation s (BatchIndexFunctions functions now) =
     snd (batchIndexFunctions s functions now)"

definition run_operations :: "operation list \<Rightarrow> store" where
  "run_operations ops = foldl apply_operation empty_store ops"

text \<open>
  \<open>all_edge_writes_succeed s ops\<close>: in the run of \<open>ops\<close> from \<open>s\<close> no \<^verbatim>\<open>sadd\<close> command
  fails, neither one of the two that \<^verbatim>\<open>addFunctionCall\<close> sends nor one queued in a
  pipeline. (An \<^verbatim>\<open>hset\<close> may fail.)
\<close>

fun sadds_succeed :: "store \<Rightarrow> command list \<Rightarrow> bool" where
  "sadds_succeed s [] = True"
| "sadds_succeed s (HSet k fvs # cs) =
     sadds_succeed (case hset s k fvs of Inl e \<Rightarrow> s | Inr s' \<Rightarrow> s') cs"
| "sadds_succeed s (SAdd k m # cs) =
     (case sadd s k m of Inl e \<Rightarrow> False | Inr s' \<Rightarrow> sadds_succeed s' cs)"

fun edge_writes_succeed :: "store \<Rightarrow> operation \<Rightarrow> bool" where
  "edge_writes_succeed s (SetFunction name m now) = True"
| "edge_writes_succeed s (AddFunctionCall caller callee) =
     (fst (addFunctionCall s caller callee) = None)"
| "edge_writes_succeed s (BatchIndexFunctions functions now) =
     sadds_succeed s (concat (map (\<lambda>fn. function_commands fn now) functions))"

fun all_edge_writes_succeed :: "store \<Rightarrow> operation list \<Rightarrow> bool" where
  "all_edge_writes_succeed s [] = True"
| "all_edge_writes_succeed s (operation # rest) =
     (edge_writes_succeed s operation \<and>
      all_edge_writes_succeed (apply_operation s operation) rest)"

text \<open>The invariant of the edge sets: the two sets of every edge mirror each other.\<close>

definition members :: "store \<Rightarrow> string \<Rightarrow> string set" where
  "members s k = (case lookup s k of Some (SetV xs) \<Rightarrow> set xs | _ \<Rightarrow> {})"

definition edges_mirrored :: "store \<Rightarrow> bool" where
  "edges_mirrored s =
     (\<forall>x y. (y \<in> members s (calls_key x)) = (x \<in> members s (called_by_key y)))"

section \<open>Reading a dependency tree\<close>

text \<open>
  What the properties below read off a returned tree: all its nodes, their names, the names
  of the nodes that have children (the nodes that were expanded), both in traversal order,
  and the number of levels below the root. \<open>callers_within s n f\<close> are the functions from
  which \<open>f\<close> is reached in at least one and at most \<open>n\<close> stored call edges.
\<close>

fun all_nodes :: "dep_node \<Rightarrow> dep_node list" where
  "all_nodes (DepNode f deps d) = DepNode f deps d # concat (map all_nodes deps)"

fun node_names :: "dep_node \<Rightarrow> string list" where
  "node_names (DepNode f deps d) = f # concat (map node_names deps)"

fun expanded :: "dep_node \<Rightarrow> string list" where
  "expanded (DepNode f deps d) = (if deps = [] then [] else [f]) @ concat (map expanded deps)"

fun height :: "dep_node \<Rightarrow> nat" where
  "height (DepNode f deps d) = foldr (\<lambda>n h. max (Suc (height n)) h) deps 0"

fun callers_within :: "store \<Rightarrow> nat \<Rightarrow> string \<Rightarrow> string set" where
  "callers_within s 0 f = {}"
| "callers_within s (Suc n) f =
     set (getFunctionCallers s f) \<union> (\<Union>c \<in> set (getFunctionCallers s f). callers_within s n c)"

section \<open>Example stores\<close>

definition example_metadata :: metadata where
  "example_metadata = \<lparr>md_file = ''a.js'', md_line = 1, md_endLine = Some 3, md_params = None,
     md_isAsync = False, md_isExported = False, md_type = None\<rparr>"

text \<open>
  A file \<^verbatim>\<open>a.js\<close> whose only function is \<^verbatim>\<open>foo\<close>, indexed into the empty store; in the
  next version of the file the function is called \<^verbatim>\<open>bar\<close>. Any other content does not
  parse. The digest of the examples is the content itself.
\<close>

definition named_record :: "string \<Rightarrow> string list \<Rightarrow> fn_record" where
  "named_record name calls = \<lparr>fr_name = name, fr_line = 1, fr_endLine = Some 3,
     fr_params = Some [], fr_calls = Some calls, fr_isAsync = False, fr_isExported = False,
     fr_type = Some ''function''\<rparr>"

definition example_babel :: "string \<Rightarrow> string \<Rightarrow> fn_record list option" where
  "example_babel filePath content =
     (if content = ''function foo() {}'' then Some [named_record ''foo'' []]
      else if content = ''function bar() {}'' then Some [named_record ''bar'' []]
      else None)"

definition example_env :: "string \<Rightarrow> indexer_env" where
  "example_env content =
     \<lparr>parsers = [JavaScriptParser example_babel],
      readFile = (\<lambda>filePath. Inr content),
      getContentHash = (\<lambda>c. c)\<rparr>"

definition default_options :: options where
  "default_options = \<lparr>force = False, skipDelete = False\<rparr>"

definition foo_store :: store where
  "foo_store =
     snd (indexFile (example_env ''function foo() {}'') empty_store ''a.js'' default_options 1)"

text \<open>The cycle \<^verbatim>\<open>a\<close> calls \<^verbatim>\<open>b\<close>, \<^verbatim>\<open>b\<close> calls \<^verbatim>\<open>c\<close>, \<^verbatim>\<open>c\<close> calls \<^verbatim>\<open>a\<close>.\<close>

definition cycle_store :: store where
  "cycle_store = run_operations
     [AddFunctionCall ''a'' ''b'', AddFunctionCall ''b'' ''c'', AddFunctionCall ''c'' ''a'']"

text \<open>A store whose connection is down, and a one-record batch.\<close>

definition offline_store :: store where
  "offline_store = \<lparr>connected = False, db = []\<rparr>"

definition example_batch_fn :: batch_fn where
  "example_batch_fn = \<lparr>bf_name = ''foo'', bf_metadata = example_metadata, bf_calls = Some [''bar'']\<rparr>"

section \<open>Properties\<close>

subsection \<open>Keys and key enumeration\<close>

lemma starts_with_iff: "starts_with pat k \<longleftrightarrow> (\<exists>b. k = pat @ b)"
  unfolding starts_with_def
  by (metis append_eq_conv_conj append_take_drop_id)

lemma str_includes_iff: "str_includes k sub \<longleftrightarrow> (\<exists>a b. k = a @ sub @ b)"
proof (induction k)
  case Nil
  then show ?case by auto
next
  case (Cons c cs)
  show ?case
  proof
    assume "str_includes (c # cs) sub"
    then consider "starts_with sub (c # cs)" | "str_includes cs sub" by auto
    then show "\<exists>a b. c # cs = a @ sub @ b"
    proof cases
      case 1
      then obtain b where "c # cs = sub @ b" by (auto simp: starts_with_iff)
      then have "c # cs = [] @ sub @ b" by simp
      then show ?thesis by blast
    next
      case 2
      then obtain a b where "cs = a @ sub @ b" using Cons.IH by auto
      then have "c # cs = (c # a) @ sub @ b" by simp
      then show ?thesis by blast
    qed
  next
    assume "\<exists>a b. c # cs = a @ sub @ b"
    then obtain a b where ab: "c # cs = a @ sub @ b" by blast
    show "str_includes (c # cs) sub"
    proof (cases a)
      case Nil
      with ab have "starts_with sub (c # cs)" by (auto simp: starts_with_iff)
      then show ?thesis by simp
    next
      case (Cons x a')
      with ab have "cs = a' @ sub @ b" by simp
      then have "str_includes cs sub" using Cons.IH by blast
      then show ?thesis by simp
    qed
  qed
qed

lemma glob_star: "glob_match ''*'' k"
  by (induction k) auto

lemma glob_prefix:
  "CHR ''*'' \<notin> set pre \<Longrightarrow> glob_match (pre @ ''*'') k = starts_with pre k"
proof (induction pre arbitrary: k)
  case Nil
  then show ?case by (simp add: glob_star starts_with_def)
next
  case (Cons p pre)
  then show ?case by (cases k) (auto simp: starts_with_def)
qed

lemma glob_function: "glob_match ''function:*'' k = starts_with ''function:'' k"
  using glob_prefix [of "''function:''" k] by simp

lemma function_key_has_colon: "starts_with ''function:'' k \<Longrightarrow> str_includes k '':''"
proof -
  assume "starts_with ''function:'' k"
  then obtain b where "k = ''function:'' @ b" by (auto simp: starts_with_iff)
  then have "k = ''function'' @ '':'' @ b" by simp
  then show ?thesis unfolding str_includes_iff by blast
qed

lemma str_replace_prefix:
  "starts_with pat k \<Longrightarrow> str_replace k pat rep = rep @ drop (length pat) k"
  by (cases k) (auto simp: starts_with_def)

lemma function_key_name: "starts_with ''function:'' k \<Longrightarrow> fn_key (str_replace k ''function:'' []) = k"
  by (auto simp: str_replace_prefix fn_key_def starts_with_iff)

lemma scan_keys:
  "scan s cursor ''function:*'' count = Inr page \<Longrightarrow> \<forall>k \<in> set (snd page). starts_with ''function:'' k"
  by (auto simp: scan_def Let_def glob_function split: if_splits)

lemma collect_skips_all:
  "\<forall>k \<in> set keys. starts_with ''function:'' k \<Longrightarrow> collect_file_functions s filePath keys fns = fns"
  by (induction keys) (auto simp: function_key_has_colon)

lemma scan_file_functions_result:
  "scan_file_functions s filePath cursor fns =
     (if connected s then Inr fns else Inl ConnectionLost)"
proof (induction s filePath cursor fns rule: scan_file_functions.induct)
  case (1 s filePath scanCursor fns)
  show ?case
  proof (cases "scan s scanCursor ''function:*'' 100")
    case (Inl e)
    then have "\<not> connected s" "e = ConnectionLost"
      by (auto simp: scan_def Let_def split: if_splits)
    with Inl show ?thesis by (subst scan_file_functions.simps) simp
  next
    case (Inr page)
    then have c: "connected s" by (auto simp: scan_def split: if_splits)
    have k: "collect_file_functions s filePath (snd page) fns = fns"
      using scan_keys [OF Inr] by (rule collect_skips_all)
    show ?thesis
    proof (cases "fst page = 0")
      case True
      with Inr k c show ?thesis by (subst scan_file_functions.simps) simp
    next
      case False
      with Inr k c "1.IH" [OF Inr False] show ?thesis
        by (subst scan_file_functions.simps) simp
    qed
  qed
qed

lemma deleteFileData_files_only:
  "deleteFileData s filePath =
     (case hdel s ''file:metadata'' filePath of
        Inl e \<Rightarrow> (Some e, s)
      | Inr s2 \<Rightarrow> (case del s2 (file_meta_key filePath) of
                    Inl e \<Rightarrow> (Some e, s2)
                  | Inr s3 \<Rightarrow> (None, s3)))"
  by (auto simp: deleteFileData_def scan_file_functions_result hdel_def split: sum.splits)

lemma count_functions_result:
  "count_functions s cursor n =
     (if connected s
      then Inr (n + length (filter is_function_key
                  (filter (glob_match ''function:*'') (drop cursor (map fst (db s))))))
      else Inl ConnectionLost)"
proof (induction s cursor n rule: count_functions.induct)
  case (1 s scanCursor functionCount)
  show ?case
  proof (cases "connected s")
    case False
    then show ?thesis by (subst count_functions.simps) (simp add: scan_def)
  next
    case True
    let ?ks = "map fst (db s)"
    define page where "page = (if length ?ks \<le> scanCursor + 100 then 0 else scanCursor + 100,
       filter (glob_match ''function:*'') (take 100 (drop scanCursor ?ks)))"
    have sc: "scan s scanCursor ''function:*'' 100 = Inr page"
      using True by (simp add: scan_def Let_def page_def)
    have split: "drop scanCursor ?ks = take 100 (drop scanCursor ?ks) @ drop (scanCursor + 100) ?ks"
      by (metis add.commute append_take_drop_id drop_drop)
    show ?thesis
    proof (cases "fst page = 0")
      case z: True
      then have "drop (scanCursor + 100) ?ks = []" by (auto simp: page_def split: if_splits)
      with split have "drop scanCursor ?ks = take 100 (drop scanCursor ?ks)" by simp
      then have "filter (glob_match ''function:*'') (drop scanCursor ?ks) = snd page"
        by (simp add: page_def)
      with sc z True show ?thesis by (subst count_functions.simps) simp
    next
      case nz: False
      then have f: "fst page = scanCursor + 100" by (auto simp: page_def split: if_splits)
      have "filter (glob_match ''function:*'') (drop scanCursor ?ks)
            = snd page @ filter (glob_match ''function:*'') (drop (scanCursor + 100) ?ks)"
        by (subst split) (simp add: page_def)
      with sc nz True f "1.IH" [OF sc nz] show ?thesis
        by (subst count_functions.simps) simp
    qed
  qed
qed

subsection \<open>Function records and their enumeration\<close>

lemma hset_lookup:
  "hset s k fvs = Inr s' \<Longrightarrow>
     connected s' = connected s \<and>
     lookup s' k' = (if k' = k
                     then Some (Hash (merge_fields (case lookup s k of Some (Hash h) \<Rightarrow> h | _ \<Rightarrow> []) fvs))
                     else lookup s k')"
  by (auto simp: hset_def lookup_def update_conv' split: if_splits option.splits redis_value.splits)

lemma hset_keys:
  "hset s k fvs = Inr s' \<Longrightarrow>
     map fst (db s') = (if k \<in> set (map fst (db s)) then map fst (db s) else map fst (db s) @ [k])"
  by (auto simp: hset_def update_keys image_iff split: if_splits option.splits redis_value.splits)
     force+

lemma getFunction_setFunction:
  assumes "setFunction s name m now = Inr s'"
  shows "getFunction s' name \<noteq> None"
    and "decimal_numbers m now \<Longrightarrow> getFunction s' name = Some (stored_info m now)"
proof -
  from assms have c: "connected s'" and
    l: "lookup s' (fn_key name) = Some (Hash (merge_fields
          (case lookup s (fn_key name) of Some (Hash h) \<Rightarrow> h | _ \<Rightarrow> []) (function_fields m now)))"
    using hset_lookup [of s "fn_key name" "function_fields m now" s' "fn_key name"]
    by (auto simp: setFunction_def hset_def split: if_splits)
  show "getFunction s' name \<noteq> None"
    by (simp add: getFunction_def hgetall_def c l merge_fields_def function_fields_def)
  show "getFunction s' name = Some (stored_info m now)" if "decimal_numbers m now"
    using that
    by (simp add: getFunction_def hgetall_def c l merge_fields_def function_fields_def
        update_conv' stored_info_def decimal_numbers_def read_number_def split: option.splits)
qed

lemma getAllFunctions_names:
  "name \<in> set (snd (getAllFunctions s cursor count)) \<Longrightarrow> is_function_key (fn_key name)"
proof -
  assume a: "name \<in> set (snd (getAllFunctions s cursor count))"
  show ?thesis
  proof (cases "scan s cursor ''function:*'' count")
    case (Inl e)
    with a show ?thesis by (simp add: getAllFunctions_def)
  next
    case (Inr page)
    with a obtain k where k: "k \<in> set (snd page)" "is_function_key k"
      "name = str_replace k ''function:'' []"
      by (auto simp: getAllFunctions_def)
    from scan_keys [OF Inr] k(1) have "starts_with ''function:'' k" by blast
    then have "fn_key name = k" using k(3) by (simp add: function_key_name)
    with k(2) show ?thesis by simp
  qed
qed

lemma functionsIndexed_getStats:
  "functionsIndexed (getStats s t) =
     (case hlen s ''file:metadata'' of
        Inl e \<Rightarrow> 0
      | Inr n \<Rightarrow> length (filter is_function_key
                   (filter (glob_match ''function:*'') (map fst (db s)))))"
  by (auto simp: getStats_def count_functions_result hlen_def split: sum.splits)

lemma starts_with_calls_key:
  "starts_with ''calls'' name \<Longrightarrow> str_includes (fn_key name) '':calls''"
  "starts_with ''called_by'' name \<Longrightarrow> str_includes (fn_key name) '':called_by''"
proof -
  assume "starts_with ''calls'' name"
  then obtain b where "name = ''calls'' @ b" by (auto simp: starts_with_iff)
  then have "fn_key name = ''function'' @ '':calls'' @ b" by (simp add: fn_key_def)
  then show "str_includes (fn_key name) '':calls''" unfolding str_includes_iff by blast
next
  assume "starts_with ''called_by'' name"
  then obtain b where "name = ''called_by'' @ b" by (auto simp: starts_with_iff)
  then have "fn_key name = ''function'' @ '':called_by'' @ b" by (simp add: fn_key_def)
  then show "str_includes (fn_key name) '':called_by''" unfolding str_includes_iff by blast
qed

text \<open>
  C10. A function whose storage key contains \<^verbatim>\<open>:calls\<close> or \<^verbatim>\<open>:called_by\<close>, for
  example one whose name begins with \<^verbatim>\<open>calls\<close> or \<^verbatim>\<open>called_by\<close>, is stored by
  \<^verbatim>\<open>setFunction\<close> and found by \<^verbatim>\<open>getFunction\<close>, which returns its metadata as stored
  when the stored numbers are written in decimal; but no page of \<^verbatim>\<open>getAllFunctions\<close> lists
  it and \<^verbatim>\<open>getStats\<close> counts the same number of functions as before it was stored.
\<close>

theorem C10_relationship_named_function_hidden:
  assumes name: "starts_with ''calls'' name \<or> starts_with ''called_by'' name \<or>
                 str_includes (fn_key name) '':calls'' \<or> str_includes (fn_key name) '':called_by''"
    and set: "setFunction s name m now = Inr s'"
  shows "name \<notin> set (snd (getAllFunctions s' cursor count)) \<and>
         functionsIndexed (getStats s' t) = functionsIndexed (getStats s t) \<and>
         getFunction s' name \<noteq> None \<and>
         (decimal_numbers m now \<longrightarrow> getFunction s' name = Some (stored_info m now))"
proof -
  from name have hidden: "\<not> is_function_key (fn_key name)"
    using starts_with_calls_key [of name] by (auto simp: is_function_key_def)
  then have 1: "name \<notin> set (snd (getAllFunctions s' cursor count))"
    using getAllFunctions_names by blast
  from set have h: "hset s (fn_key name) (function_fields m now) = Inr s'"
    by (simp add: setFunction_def)
  have fk: "fn_key name \<noteq> ''file:metadata''" by (simp add: fn_key_def)
  from hset_lookup [OF h, of "''file:metadata''"] fk
  have "hlen s' ''file:metadata'' = hlen s ''file:metadata''"
    by (simp add: hlen_def)
  moreover have "filter is_function_key (filter (glob_match ''function:*'') (map fst (db s')))
      = filter is_function_key (filter (glob_match ''function:*'') (map fst (db s)))"
    using hset_keys [OF h] hidden by auto
  ultimately have 2: "functionsIndexed (getStats s' t) = functionsIndexed (getStats s t)"
    unfolding functionsIndexed_getStats by (simp only:)
  from 1 2 getFunction_setFunction [OF set] show ?thesis by blast
qed

theorem C10_relationship_named_function_hidden_witness:
  "starts_with ''calls'' ''callsBack'' \<and>
   setFunction empty_store ''callsBack'' example_metadata 7
     = Inr (apply_operation empty_store (SetFunction ''callsBack'' example_metadata 7)) \<and>
   ''callsBack'' \<notin> set (snd (getAllFunctions
       (apply_operation empty_store (SetFunction ''callsBack'' example_metadata 7)) 0 100)) \<and>
   functionsIndexed (getStats
       (apply_operation empty_store (SetFunction ''callsBack'' example_metadata 7)) 9)
     = functionsIndexed (getStats empty_store 9) \<and>
   decimal_numbers example_metadata 7 \<and>
   getFunction (apply_operation empty_store (SetFunction ''callsBack'' example_metadata 7))
     ''callsBack'' = Some (stored_info example_metadata 7)"
proof -
  have a: "starts_with ''calls'' ''callsBack''" by (simp add: starts_with_def)
  have d: "decimal_numbers example_metadata 7"
    by (simp add: decimal_numbers_def example_metadata_def)
  have b: "setFunction empty_store ''callsBack'' example_metadata 7
     = Inr (apply_operation empty_store (SetFunction ''callsBack'' example_metadata 7))"
    by (simp add: setFunction_def hset_def empty_store_def lookup_def)
  from C10_relationship_named_function_hidden [OF disjI1 [OF a] b, of 0 100 9] a b d
  show ?thesis by blast
qed

subsection \<open>Writing a function record twice\<close>

lemma update_present_commute:
  "a \<in> fst ` set h \<Longrightarrow> a \<noteq> b \<Longrightarrow>
     AList.update a v (AList.update b w h) = AList.update b w (AList.update a v h)"
  by (induction h) auto

lemma update_past_fold:
  "a \<in> fst ` set h \<Longrightarrow> a \<notin> fst ` set fvs \<Longrightarrow>
     AList.update a v (fold (\<lambda>(f, v). AList.update f v) fvs h)
       = fold (\<lambda>(f, v). AList.update f v) fvs (AList.update a v h)"
proof (induction fvs arbitrary: h)
  case Nil
  then show ?case by simp
next
  case (Cons p fvs)
  obtain b w where p: "p = (b, w)" by (cases p)
  from Cons.prems p have ab: "a \<noteq> b" and nin: "a \<notin> fst ` set fvs" by auto
  have "a \<in> fst ` set (AList.update b w h)" using Cons.prems(1) by (simp add: dom_update)
  from Cons.IH [OF this nin] show ?case
    by (simp add: p update_present_commute [OF Cons.prems(1) ab])
qed

lemma merge_fields_twice:
  "map fst f1 = map fst f2 \<Longrightarrow> distinct (map fst f1) \<Longrightarrow>
     merge_fields (merge_fields h f1) f2 = merge_fields h f2"
unfolding merge_fields_def
proof (induction f1 arbitrary: f2 h)
  case Nil
  then show ?case by simp
next
  case (Cons p f1)
  obtain a v1 where p: "p = (a, v1)" by (cases p)
  from Cons.prems(1) p obtain v2 f2' where f2: "f2 = (a, v2) # f2'" "map fst f1 = map fst f2'"
    by (cases f2) auto
  from Cons.prems(2) p have nin: "a \<notin> fst ` set f1" and d: "distinct (map fst f1)" by auto
  have ain: "a \<in> fst ` set (AList.update a v1 h)" by (simp add: dom_update)
  have "AList.update a v2 (fold (\<lambda>(f, v). AList.update f v) f1 (AList.update a v1 h))
      = fold (\<lambda>(f, v). AList.update f v) f1 (AList.update a v2 h)"
    using update_past_fold [OF ain nin, of v2] by simp
  then show ?case using Cons.IH [OF f2(2) d, of "AList.update a v2 h"]
    by (simp add: p f2(1))
qed

lemma function_fields_names:
  "map fst (function_fields m t1) = map fst (function_fields m t2)"
  "distinct (map fst (function_fields m t1))"
  by (simp_all add: function_fields_def)

text \<open>
  C9, as amended. Calling \<^verbatim>\<open>setFunction\<close> twice in succession with the same name and
  metadata leaves the store as a single call made at the time of the second call leaves it:
  every field is as after the first call except \<^verbatim>\<open>lastIndexed\<close>, which holds the clock
  reading of the latest call.
\<close>

theorem C9_setFunction_twice:
  assumes "setFunction s name m t1 = Inr s1"
  shows "setFunction s1 name m t2 = setFunction s name m t2"
proof -
  let ?k = "fn_key name"
  from assms have h: "hset s ?k (function_fields m t1) = Inr s1" by (simp add: setFunction_def)
  then have c: "connected s" by (auto simp: hset_def split: if_splits)
  define old where "old = (case lookup s ?k of Some (Hash h) \<Rightarrow> h | _ \<Rightarrow> [])"
  from h have nset: "\<And>xs. lookup s ?k \<noteq> Some (SetV xs)"
    by (auto simp: hset_def split: if_splits)
  from h c have s1: "s1 = s\<lparr>db := AList.update ?k (Hash (merge_fields old (function_fields m t1))) (db s)\<rparr>"
    by (auto simp: hset_def old_def split: option.splits redis_value.splits)
  then have l1: "lookup s1 ?k = Some (Hash (merge_fields old (function_fields m t1)))"
    by (simp add: lookup_def update_conv')
  from s1 c have c1: "connected s1" by simp
  have "hset s1 ?k (function_fields m t2)
      = Inr (s1\<lparr>db := AList.update ?k (Hash (merge_fields old (function_fields m t2))) (db s1)\<rparr>)"
    using c1 by (simp add: hset_def l1 merge_fields_twice [OF function_fields_names])
  also have "s1\<lparr>db := AList.update ?k (Hash (merge_fields old (function_fields m t2))) (db s1)\<rparr>
      = s\<lparr>db := AList.update ?k (Hash (merge_fields old (function_fields m t2))) (db s)\<rparr>"
    by (simp add: s1)
  finally have "hset s1 ?k (function_fields m t2)
      = Inr (s\<lparr>db := AList.update ?k (Hash (merge_fields old (function_fields m t2))) (db s)\<rparr>)" .
  moreover have "hset s ?k (function_fields m t2)
      = Inr (s\<lparr>db := AList.update ?k (Hash (merge_fields old (function_fields m t2))) (db s)\<rparr>)"
    using c nset by (auto simp: hset_def old_def split: option.splits redis_value.splits)
  ultimately show ?thesis by (simp add: setFunction_def)
qed

theorem C9_setFunction_twice_witness:
  "setFunction empty_store ''foo'' example_metadata 1
     = Inr (apply_operation empty_store (SetFunction ''foo'' example_metadata 1)) \<and>
   setFunction (apply_operation empty_store (SetFunction ''foo'' example_metadata 1))
       ''foo'' example_metadata 2
     = setFunction empty_store ''foo'' example_metadata 2"
proof -
  have b: "setFunction empty_store ''foo'' example_metadata 1
     = Inr (apply_operation empty_store (SetFunction ''foo'' example_metadata 1))"
    by (simp add: setFunction_def hset_def empty_store_def lookup_def)
  from C9_setFunction_twice [OF b, of 2] b show ?thesis by blast
qed

text \<open>
  The claim as stated fails when the clock has moved between the two calls: the second call
  changes the \<^verbatim>\<open>lastIndexed\<close> that \<^verbatim>\<open>getFunction\<close> returns.
\<close>

theorem C9_setFunction_twice_counterexample:
  "getFunction (apply_operation (apply_operation empty_store
       (SetFunction ''foo'' example_metadata 1)) (SetFunction ''foo'' example_metadata 2)) ''foo''
   \<noteq> getFunction (apply_operation empty_store (SetFunction ''foo'' example_metadata 1)) ''foo''"
  by code_simp

subsection \<open>Deleting the data of a file\<close>

text \<open>
  C1. The claim is that after \<^verbatim>\<open>deleteFileData(p)\<close> no function of file \<^verbatim>\<open>p\<close> is listed
  any more. The code does not do that: every key the scan yields starts with
  \<^verbatim>\<open>function:\<close> and so contains a colon, the test meant to skip the relationship keys
  skips them all, and no function is ever deleted. For the file \<^verbatim>\<open>a.js\<close> with its
  function \<^verbatim>\<open>foo\<close>, \<^verbatim>\<open>deleteFileData\<close> completes without error and removes the
  fingerprint, and \<^verbatim>\<open>foo\<close> is still listed and still found; after the file is indexed
  again with \<^verbatim>\<open>foo\<close> renamed to \<^verbatim>\<open>bar\<close>, both names are listed.
\<close>

theorem C1_deleteFileData_keeps_functions:
  "fst (deleteFileData foo_store ''a.js'') = None \<and>
   getFileHash (snd (deleteFileData foo_store ''a.js'')) ''a.js'' = None \<and>
   listAllFunctions (snd (deleteFileData foo_store ''a.js'')) = [''foo''] \<and>
   map_option fi_file (getFunction (snd (deleteFileData foo_store ''a.js'')) ''foo'')
     = Some (Some (Str ''a.js'')) \<and>
   listAllFunctions
     (snd (indexFile (example_env ''function bar() {}'') foo_store ''a.js'' default_options 2))
     = [''foo'', ''bar'']"
  by code_simp

subsection \<open>The reverse trace\<close>

text \<open>
  C3. The claim is that the reverse trace of \<^verbatim>\<open>c\<close> with depth 5 over the cycle returns
  \<^verbatim>\<open>a\<close> and \<^verbatim>\<open>b\<close>. The code returns \<^verbatim>\<open>b\<close> alone: a caller is added to the affected set
  before the recursive call on it, which then finds it in the set and returns at once.
\<close>

theorem C3_findAffectedFunctions_cycle:
  "findAffectedFunctions cycle_store ''c'' 5 = [''b'']"
  by code_simp

subsection \<open>Batch submission\<close>

lemma batchIndexFunctions_report:
  "functions \<noteq> [] \<Longrightarrow>
     fst (batchIndexFunctions s functions now) = \<lparr>indexed = length functions, errors = 0\<rparr>"
  by (simp add: batchIndexFunctions_def exec_def split: prod.splits)

text \<open>
  C8. The claim is that a batch whose submission fails as a whole is reported as
  \<open>n\<close> errors and nothing indexed, as for an unreachable store. The code does not report
  that: the pipeline submission resolves with one error per command, the result list is
  never looked at, and the \<^verbatim>\<open>catch\<close> branch is not taken. With the connection down, the
  batch of one record has all three of its commands fail, leaves the store as it was, and
  is reported as one record indexed and no error.
\<close>

theorem C8_batch_reports_success_when_unreachable:
  "fst (run_commands offline_store (function_commands example_batch_fn 5))
     = [Some ConnectionLost, Some ConnectionLost, Some ConnectionLost] \<and>
   batchIndexFunctions offline_store [example_batch_fn] 5
     = (\<lparr>indexed = 1, errors = 0\<rparr>, offline_store)"
  by code_simp

subsection \<open>The forward trace\<close>

lemma trace_expanded:
  "(case traceDependenciesRecursive s fn visited depth maxDepth of
      (children, visited') \<Rightarrow>
        visited \<subseteq> visited' \<and>
        distinct (concat (map expanded children)) \<and>
        set (concat (map expanded children)) \<subseteq> visited' - insert fn visited \<and>
        (children \<noteq> [] \<longrightarrow> fn \<in> visited' \<and> fn \<notin> visited))"
  "(case trace_calls s calls visited depth maxDepth of
      (nodes, visited') \<Rightarrow>
        visited \<subseteq> visited' \<and>
        distinct (concat (map expanded nodes)) \<and>
        set (concat (map expanded nodes)) \<subseteq> visited' - visited)"
proof (induction s fn visited depth maxDepth and s calls visited depth maxDepth
    rule: traceDependenciesRecursive_trace_calls.induct)
  case (1 s functionName visited depth maxDepth)
  show ?case
  proof (cases "maxDepth \<le> depth \<or> functionName \<in> visited")
    case True
    then show ?thesis by (simp add: traceDependenciesRecursive.simps)
  next
    case False
    obtain nodes visited' where r:
      "trace_calls s (getFunctionCalls s functionName) (insert functionName visited) depth maxDepth
        = (nodes, visited')"
      by (cases "trace_calls s (getFunctionCalls s functionName) (insert functionName visited) depth maxDepth")
    from "1.IH" [OF False] r have
      "insert functionName visited \<subseteq> visited'"
      "distinct (concat (map expanded nodes))"
      "set (concat (map expanded nodes)) \<subseteq> visited' - insert functionName visited"
      by auto
    with False r show ?thesis
      by (subst traceDependenciesRecursive.simps) auto
  qed
next
  case (2 s visited depth maxDepth)
  show ?case by (simp add: trace_calls.simps)
next
  case (3 s calledFunction rest visited depth maxDepth)
  obtain children visited1 where c:
    "traceDependenciesRecursive s calledFunction visited (depth + 1) maxDepth = (children, visited1)"
    by (cases "traceDependenciesRecursive s calledFunction visited (depth + 1) maxDepth")
  obtain siblings visited2 where r:
    "trace_calls s rest visited1 depth maxDepth = (siblings, visited2)"
    by (cases "trace_calls s rest visited1 depth maxDepth")
  from "3.IH"(1) c have a:
    "visited \<subseteq> visited1"
    "distinct (concat (map expanded children))"
    "set (concat (map expanded children)) \<subseteq> visited1 - insert calledFunction visited"
    "children \<noteq> [] \<longrightarrow> calledFunction \<in> visited1 \<and> calledFunction \<notin> visited"
    by auto
  from "3.IH"(2) [OF c [symmetric]] r have b:
    "visited1 \<subseteq> visited2"
    "distinct (concat (map expanded siblings))"
    "set (concat (map expanded siblings)) \<subseteq> visited2 - visited1"
    by auto
  define ec where "ec = concat (map expanded children)"
  define es where "es = concat (map expanded siblings)"
  note a' = a [folded ec_def] and b' = b [folded es_def]
  have t: "trace_calls s (calledFunction # rest) visited depth maxDepth
      = (DepNode calledFunction children (depth + 1) # siblings, visited2)"
    by (simp add: trace_calls.simps c r)
  have e: "concat (map expanded (DepNode calledFunction children (depth + 1) # siblings))
      = (if children = [] then [] else [calledFunction]) @ ec @ es"
    by (simp add: ec_def es_def)
  have d1: "set ec \<inter> set es = {}" using a'(3) b'(3) by blast
  have d2: "calledFunction \<notin> set ec" using a'(3) by blast
  have d3: "children \<noteq> [] \<Longrightarrow> calledFunction \<notin> set es" using a'(4) b'(3) by blast
  have "visited \<subseteq> visited2" using a(1) b(1) by blast
  moreover have "distinct ((if children = [] then [] else [calledFunction]) @ ec @ es)"
    using a'(2) b'(2) d1 d2 d3 by auto
  moreover have "set ((if children = [] then [] else [calledFunction]) @ ec @ es)
      \<subseteq> visited2 - visited"
    using a' b' by auto
  ultimately have "visited \<subseteq> visited2 \<and>
      distinct (concat (map expanded (DepNode calledFunction children (depth + 1) # siblings))) \<and>
      set (concat (map expanded (DepNode calledFunction children (depth + 1) # siblings)))
        \<subseteq> visited2 - visited"
    unfolding e by blast
  then show ?case by (simp only: t split_conv)
qed

lemma trace_children:
  "(case traceDependenciesRecursive s fn visited depth maxDepth of
      (children, visited') \<Rightarrow>
        (children = [] \<or> map node_function children = getFunctionCalls s fn) \<and>
        (\<forall>n \<in> set (concat (map all_nodes children)).
            node_dependencies n = [] \<or>
            map node_function (node_dependencies n) = getFunctionCalls s (node_function n)))"
  "(case trace_calls s calls visited depth maxDepth of
      (nodes, visited') \<Rightarrow>
        map node_function nodes = calls \<and>
        (\<forall>n \<in> set (concat (map all_nodes nodes)).
            node_dependencies n = [] \<or>
            map node_function (node_dependencies n) = getFunctionCalls s (node_function n)))"
proof (induction s fn visited depth maxDepth and s calls visited depth maxDepth
    rule: traceDependenciesRecursive_trace_calls.induct)
  case (1 s functionName visited depth maxDepth)
  show ?case
  proof (cases "maxDepth \<le> depth \<or> functionName \<in> visited")
    case True
    then show ?thesis by (simp add: traceDependenciesRecursive.simps)
  next
    case False
    with "1.IH" [OF False] show ?thesis
      by (subst traceDependenciesRecursive.simps) (auto split: prod.splits)
  qed
next
  case (2 s visited depth maxDepth)
  show ?case by (simp add: trace_calls.simps)
next
  case (3 s calledFunction rest visited depth maxDepth)
  obtain children visited1 where c:
    "traceDependenciesRecursive s calledFunction visited (depth + 1) maxDepth = (children, visited1)"
    by (cases "traceDependenciesRecursive s calledFunction visited (depth + 1) maxDepth")
  obtain siblings visited2 where r:
    "trace_calls s rest visited1 depth maxDepth = (siblings, visited2)"
    by (cases "trace_calls s rest visited1 depth maxDepth")
  from "3.IH"(1) c have a:
    "children = [] \<or> map node_function children = getFunctionCalls s calledFunction"
    "\<forall>n \<in> set (concat (map all_nodes children)).
        node_dependencies n = [] \<or>
        map node_function (node_dependencies n) = getFunctionCalls s (node_function n)"
    by auto
  from "3.IH"(2) [OF c [symmetric]] r have b:
    "map node_function siblings = rest"
    "\<forall>n \<in> set (concat (map all_nodes siblings)).
        node_dependencies n = [] \<or>
        map node_function (node_dependencies n) = getFunctionCalls s (node_function n)"
    by auto
  have t: "trace_calls s (calledFunction # rest) visited depth maxDepth
      = (DepNode calledFunction children (depth + 1) # siblings, visited2)"
    by (simp add: trace_calls.simps c r)
  from a b show ?case unfolding t by auto
qed

text \<open>
  C4, as amended. In the tree returned by \<^verbatim>\<open>traceDependencies\<close> every function name is
  expanded at most once: among the nodes that have children no name occurs twice. And every
  node that has children has exactly one child for each stored callee of its function, in
  the order of the store, whether or not that callee was visited before. So a function
  reached along a second path, or around a cycle, gets a node under each expanded caller,
  and of the nodes bearing its name at most one has children.
\<close>

theorem C4_each_function_expanded_once:
  "distinct (expanded (traceDependencies s f maxDepth)) \<and>
   (\<forall>n \<in> set (all_nodes (traceDependencies s f maxDepth)).
      node_dependencies n = [] \<or>
      map node_function (node_dependencies n) = getFunctionCalls s (node_function n))"
proof
  obtain children visited' where r:
    "traceDependenciesRecursive s f {} 0 maxDepth = (children, visited')"
    by (cases "traceDependenciesRecursive s f {} 0 maxDepth")
  from trace_expanded(1) [where s = s and fn = f and visited = "{}" and depth = 0
      and maxDepth = maxDepth] r
  have "distinct (concat (map expanded children))"
    "f \<notin> set (concat (map expanded children))"
    by auto
  with r show "distinct (expanded (traceDependencies s f maxDepth))"
    by (simp add: traceDependencies_def)
  from trace_children(1) [where s = s and fn = f and visited = "{}" and depth = 0
      and maxDepth = maxDepth] r
  show "\<forall>n \<in> set (all_nodes (traceDependencies s f maxDepth)).
      node_dependencies n = [] \<or>
      map node_function (node_dependencies n) = getFunctionCalls s (node_function n)"
    by (auto simp: traceDependencies_def)
qed

theorem C4_each_function_expanded_once_witness:
  "distinct (expanded (traceDependencies cycle_store ''a'' 5)) \<and>
   DepNode ''c'' [DepNode ''a'' [] 3] 2 \<in> set (all_nodes (traceDependencies cycle_store ''a'' 5)) \<and>
   map node_function [DepNode ''a'' [] 3] = getFunctionCalls cycle_store ''c''"
proof -
  have m: "DepNode ''c'' [DepNode ''a'' [] 3] 2
      \<in> set (all_nodes (traceDependencies cycle_store ''a'' 5))"
    by code_simp
  from C4_each_function_expanded_once [of cycle_store "''a''" 5] m
  have "node_dependencies (DepNode ''c'' [DepNode ''a'' [] 3] 2) = [] \<or>
      map node_function (node_dependencies (DepNode ''c'' [DepNode ''a'' [] 3] 2))
        = getFunctionCalls cycle_store (node_function (DepNode ''c'' [DepNode ''a'' [] 3] 2))"
    by blast
  then have "map node_function [DepNode ''a'' [] 3] = getFunctionCalls cycle_store ''c''"
    by simp
  with C4_each_function_expanded_once [of cycle_store "''a''" 5] m show ?thesis by blast
qed

text \<open>
  The claim as stated fails on the cycle: the trace of \<^verbatim>\<open>a\<close> is \<^verbatim>\<open>a\<close>, \<^verbatim>\<open>b\<close>, \<^verbatim>\<open>c\<close> and
  below \<^verbatim>\<open>c\<close> a second node named \<^verbatim>\<open>a\<close>, which is a leaf.
\<close>

theorem C4_node_names_counterexample:
  "\<not> distinct (node_names (traceDependencies cycle_store ''a'' 5))"
  by code_simp

subsection \<open>Depth bound of both traversals\<close>

lemma trace_height:
  "foldr (\<lambda>n h. max (Suc (height n)) h)
     (fst (traceDependenciesRecursive s fn visited depth maxDepth)) 0 \<le> nat (maxDepth - depth)"
  "depth < maxDepth \<Longrightarrow>
   foldr (\<lambda>n h. max (Suc (height n)) h)
     (fst (trace_calls s calls visited depth maxDepth)) 0 \<le> nat (maxDepth - depth)"
proof (induction s fn visited depth maxDepth and s calls visited depth maxDepth
    rule: traceDependenciesRecursive_trace_calls.induct)
  case (1 s functionName visited depth maxDepth)
  show ?case
  proof (cases "maxDepth \<le> depth \<or> functionName \<in> visited")
    case True
    then show ?thesis by (simp add: traceDependenciesRecursive.simps)
  next
    case False
    then have "depth < maxDepth" by simp
    with "1.IH" [OF False] False show ?thesis
      by (subst traceDependenciesRecursive.simps) simp
  qed
next
  case (2 s visited depth maxDepth)
  show ?case by (simp add: trace_calls.simps)
next
  case (3 s calledFunction rest visited depth maxDepth)
  obtain children visited1 where c:
    "traceDependenciesRecursive s calledFunction visited (depth + 1) maxDepth = (children, visited1)"
    by (cases "traceDependenciesRecursive s calledFunction visited (depth + 1) maxDepth")
  obtain siblings visited2 where r:
    "trace_calls s rest visited1 depth maxDepth = (siblings, visited2)"
    by (cases "trace_calls s rest visited1 depth maxDepth")
  from "3.IH"(1) c
  have a: "foldr (\<lambda>n h. max (Suc (height n)) h) children 0 \<le> nat (maxDepth - (depth + 1))"
    by simp
  from "3.IH"(2) [OF c [symmetric] "3.prems"] r
  have b: "foldr (\<lambda>n h. max (Suc (height n)) h) siblings 0 \<le> nat (maxDepth - depth)"
    by simp
  from a "3.prems"
  have "Suc (height (DepNode calledFunction children (depth + 1))) \<le> nat (maxDepth - depth)"
    by simp
  with b show ?case by (simp add: trace_calls.simps c r)
qed

lemma findAffectedRecursive_member:
  "functionName \<in> set affected \<Longrightarrow>
     findAffectedRecursive s functionName affected depth maxDepth = affected"
  by (simp add: findAffectedRecursive.simps)

lemma affected_callers_set:
  "set (affected_callers s callers affected depth maxDepth) = set affected \<union> set callers"
proof (induction callers arbitrary: affected)
  case Nil
  show ?case by (simp add: affected_callers.simps)
next
  case (Cons caller rest)
  have "findAffectedRecursive s caller (set_add affected caller) (depth + 1) maxDepth
      = set_add affected caller"
    by (rule findAffectedRecursive_member) (simp add: set_add_def)
  then show ?case
    by (simp add: affected_callers.simps Cons.IH) (auto simp: set_add_def)
qed

lemma findAffectedFunctions_set:
  "set (findAffectedFunctions s f maxDepth)
     = (if 0 < maxDepth then set (getFunctionCallers s f) else {})"
  by (simp add: findAffectedFunctions_def findAffectedRecursive.simps affected_callers_set)

text \<open>
  C5. Both traversals are total functions: their recursion was shown to terminate where
  they are defined, on every store and so on every cyclic call graph, by a measure that
  falls with \<open>maxDepth - depth\<close>. The tree of \<^verbatim>\<open>traceDependencies\<close> has at most
  \<open>maxDepth\<close> levels below its root, so no node further than \<open>maxDepth\<close> hops from the
  start is created and no node at \<open>maxDepth\<close> hops is expanded; every name that
  \<^verbatim>\<open>findAffectedFunctions\<close> returns reaches the start function in at most \<open>maxDepth\<close>
  stored call edges.
\<close>

theorem C5_traversals_bounded_by_maxDepth:
  "height (traceDependencies s f maxDepth) \<le> nat maxDepth \<and>
   set (findAffectedFunctions s f maxDepth) \<subseteq> callers_within s (nat maxDepth) f"
proof
  show "height (traceDependencies s f maxDepth) \<le> nat maxDepth"
    using trace_height(1) [where s = s and fn = f and visited = "{}" and depth = 0
        and maxDepth = maxDepth]
    by (simp add: traceDependencies_def)
next
  show "set (findAffectedFunctions s f maxDepth) \<subseteq> callers_within s (nat maxDepth) f"
  proof (cases "0 < maxDepth")
    case True
    then obtain n where "nat maxDepth = Suc n" by (cases "nat maxDepth") auto
    with True show ?thesis by (simp add: findAffectedFunctions_set)
  next
    case False
    then show ?thesis by (simp add: findAffectedFunctions_set)
  qed
qed

theorem C5_traversals_bounded_by_maxDepth_witness:
  "height (traceDependencies cycle_store ''a'' 2) \<le> 2 \<and>
   set (findAffectedFunctions cycle_store ''c'' 2) \<subseteq> {''a'', ''b''}"
proof -
  have "callers_within cycle_store (nat 2) ''c'' = {''a'', ''b''}" by code_simp
  with C5_traversals_bounded_by_maxDepth [of cycle_store "''a''" 2]
    C5_traversals_bounded_by_maxDepth [of cycle_store "''c''" 2]
  show ?thesis by simp
qed

subsection \<open>Files that do not parse\<close>

text \<open>
  C6. The claim is that a file whose parse fails counts as one error and is not stored.
  The code does not do that for the JavaScript parser: its \<^verbatim>\<open>catch\<close> branch returns the
  empty result, which passes validation, so \<^verbatim>\<open>indexFile\<close> reports the file as processed
  with no error and writes its fingerprint, and the run over that one file ends with one
  file processed, one fingerprint stored and no error.
\<close>

theorem C6_parse_failure_not_counted:
  "example_babel ''a.js'' ''function ('' = None \<and>
   fst (indexFile (example_env ''function ('') empty_store ''a.js'' default_options 1)
     = Inr \<lparr>skipped = False, res_functionsIndexed = 0, res_errors = 0\<rparr> \<and>
   getFileHash (snd (indexFile (example_env ''function ('') empty_store ''a.js'' default_options 1))
     ''a.js'' = Some (Str ''function ('') \<and>
   fst (indexCodebase (example_env ''function ('') empty_store (Inr [''a.js''])
          default_options 1)
     = Inr (\<lparr>filesProcessed = 1, filesSkipped = 0, run_functionsIndexed = 0, run_errors = 0\<rparr>,
            Some \<lparr>filesIndexed = 1, functionsIndexed = 0, timestamp = 1\<rparr>)"
  by code_simp

subsection \<open>A store that cannot be reached\<close>

lemma offline_commands:
  assumes "\<not> connected s"
  shows "hset s k fvs = Inl ConnectionLost" "hget s k f = Inl ConnectionLost"
    "sadd s k m = Inl ConnectionLost" "del s k = Inl ConnectionLost"
    "hdel s k f = Inl ConnectionLost" "scan s cursor pattern count = Inl ConnectionLost"
    "hlen s k = Inl ConnectionLost"
  using assms by (simp_all add: hset_def hget_def sadd_def del_def hdel_def scan_def hlen_def)

lemma offline_operations:
  assumes "\<not> connected s"
  shows "getFileHash s filePath = None"
    "shouldReindex digest s filePath content"
    "deleteFileData s filePath = (Some ConnectionLost, s)"
    "setFileHash s filePath h now = (Some ConnectionLost, s)"
    "indexFunction s filePath fn now = (Some ConnectionLost, s)"
  using assms
  by (simp_all add: getFileHash_def shouldReindex_def deleteFileData_files_only setFileHash_def
      indexFunction_def setFunction_def offline_commands)

lemma offline_index_loop:
  "\<not> connected s \<Longrightarrow> snd (index_loop s filePath fns now r) = s"
  by (induction fns arbitrary: r) (simp_all add: offline_operations)

lemma offline_index:
  "\<not> connected s \<Longrightarrow> snd (index s filePath fns now) = s"
  by (simp add: index_def offline_index_loop)

lemma offline_indexFile:
  assumes "\<not> connected s"
  shows "snd (indexFile env s filePath opts now) = s \<and>
    (case fst (indexFile env s filePath opts now) of
       Inl e \<Rightarrow> has_parser env filePath
     | Inr r \<Rightarrow> if skipped r then \<not> has_parser env filePath
               else has_parser env filePath \<and> res_functionsIndexed r = 0 \<and> res_errors r = 1)"
proof (cases "getParser (parsers env) filePath")
  case None
  then show ?thesis by (simp add: indexFile_def has_parser_def)
next
  case (Some p)
  then have hp: "has_parser env filePath" by (simp add: has_parser_def)
  show ?thesis
  proof (cases "readFile env filePath")
    case (Inl e)
    with Some hp show ?thesis by (simp add: indexFile_def)
  next
    case (Inr content)
    note content = this
    show ?thesis
    proof (cases "skipDelete opts")
      case False
      with Some content hp assms show ?thesis
        by (simp add: indexFile_def offline_operations)
    next
      case True
      show ?thesis
      proof (cases "parse p filePath content")
        case (Inl e)
        with Some content hp assms True show ?thesis
          by (simp add: indexFile_def offline_operations)
      next
        case (Inr res)
        obtain r s2 where i: "index s filePath (result_functions res) now = (r, s2)"
          by (cases "index s filePath (result_functions res) now")
        with offline_index [OF assms, of filePath "result_functions res" now]
        have s2: "s2 = s" by simp
        from Some content hp assms True Inr i s2 show ?thesis
          by (simp add: indexFile_def offline_operations)
      qed
    qed
  qed
qed

lemma offline_index_files:
  assumes "\<not> connected s"
  shows "snd (index_files env s files opts now t) = s \<and>
         run_errors (fst (index_files env s files opts now t))
           = run_errors t + length (filter (has_parser env) files) \<and>
         filesSkipped (fst (index_files env s files opts now t))
           = filesSkipped t + length (filter (\<lambda>f. \<not> has_parser env f) files) \<and>
         run_functionsIndexed (fst (index_files env s files opts now t)) = run_functionsIndexed t"
proof (induction files arbitrary: t)
  case Nil
  show ?case by simp
next
  case (Cons f files)
  obtain res s1 where i: "indexFile env s f opts now = (res, s1)"
    by (cases "indexFile env s f opts now")
  with offline_indexFile [OF assms, of env f opts now]
  have s1: "s1 = s" and
    k: "case res of Inl e \<Rightarrow> has_parser env f
        | Inr r \<Rightarrow> if skipped r then \<not> has_parser env f
                  else has_parser env f \<and> res_functionsIndexed r = 0 \<and> res_errors r = 1"
    by simp_all
  show ?case
  proof (cases res)
    case (Inl e)
    with k i s1 Cons.IH [of "t\<lparr>run_errors := run_errors t + 1\<rparr>"] show ?thesis by simp
  next
    case (Inr r)
    show ?thesis
    proof (cases "skipped r")
      case True
      with Inr k i s1 Cons.IH [of "t\<lparr>filesSkipped := filesSkipped t + 1\<rparr>"] show ?thesis
        by simp
    next
      case False
      with Inr k i s1
        Cons.IH [of "t\<lparr>filesProcessed := filesProcessed t + 1,
                      run_functionsIndexed := run_functionsIndexed t + res_functionsIndexed r,
                      run_errors := run_errors t + res_errors r\<rparr>"]
      show ?thesis by simp
    qed
  qed
qed

text \<open>
  C7, as amended. A store whose connection is down does not abort the indexing run. The
  failed fingerprint read is swallowed and the file treated as not yet indexed; the failed
  key scan or fingerprint write is thrown out of \<^verbatim>\<open>indexFile\<close> and caught per file. The
  run returns its summary: one error for every file that has a parser, every other file
  skipped, no function indexed, and the store as it was.
\<close>

theorem C7_store_failure_does_not_abort:
  assumes "\<not> connected s"
  shows "\<exists>r st. indexCodebase env s (Inr files) opts now = (Inr (r, st), s) \<and>
           run_errors r = length (filter (has_parser env) files) \<and>
           filesSkipped r = length (filter (\<lambda>f. \<not> has_parser env f) files) \<and>
           run_functionsIndexed r = 0"
proof (cases "files = []")
  case True
  then show ?thesis by (simp add: indexCodebase_def no_results_def)
next
  case False
  obtain t s1 where i: "index_files env s files opts now no_results = (t, s1)"
    by (cases "index_files env s files opts now no_results")
  with offline_index_files [OF assms, of env files opts now no_results]
  have "s1 = s" "run_errors t = length (filter (has_parser env) files)"
    "filesSkipped t = length (filter (\<lambda>f. \<not> has_parser env f) files)"
    "run_functionsIndexed t = 0"
    by (simp_all add: no_results_def)
  with False i show ?thesis by (simp add: indexCodebase_def)
qed

theorem C7_store_failure_does_not_abort_witness:
  "\<not> connected offline_store \<and>
   (\<exists>r st. indexCodebase (example_env ''function foo() {}'') offline_store
              (Inr [''a.js'', ''README.md'']) default_options 1 = (Inr (r, st), offline_store) \<and>
      run_errors r = 1 \<and> filesSkipped r = 1 \<and> run_functionsIndexed r = 0)"
proof -
  have c: "\<not> connected offline_store" by (simp add: offline_store_def)
  have 1: "length (filter (has_parser (example_env ''function foo() {}''))
      [''a.js'', ''README.md'']) = 1"
    by code_simp
  have 2: "length (filter (\<lambda>f. \<not> has_parser (example_env ''function foo() {}'') f)
      [''a.js'', ''README.md'']) = 1"
    by code_simp
  from C7_store_failure_does_not_abort [OF c, of "example_env ''function foo() {}''"
      "[''a.js'', ''README.md'']" default_options 1] c
  show ?thesis unfolding 1 2 by blast
qed

text \<open>
  The claim as stated fails: with the connection down, the run over two files does not
  abort; it returns a summary with two errors.
\<close>

theorem C7_run_continues_counterexample:
  "fst (indexCodebase (example_env ''function foo() {}'') offline_store
          (Inr [''a.js'', ''b.js'']) default_options 1)
     = Inr (\<lparr>filesProcessed = 0, filesSkipped = 0, run_functionsIndexed = 0, run_errors = 2\<rparr>,
            Some \<lparr>filesIndexed = 0, functionsIndexed = 0, timestamp = 1\<rparr>)"
  by code_simp

subsection \<open>Symmetry of the call edges\<close>

lemma edge_keys_inject [simp]:
  "(calls_key x = calls_key x') = (x = x')"
  "(called_by_key y = called_by_key y') = (y = y')"
  by (simp_all add: calls_key_def called_by_key_def)

lemma edge_keys_differ [simp]:
  "calls_key x \<noteq> called_by_key y"
  "called_by_key y \<noteq> calls_key x"
proof -
  have "last (x @ '':calls'') \<noteq> last (y @ '':called_by'')" by simp
  then have "x @ '':calls'' \<noteq> y @ '':called_by''" by metis
  then show "calls_key x \<noteq> called_by_key y" "called_by_key y \<noteq> calls_key x"
    by (auto simp: calls_key_def called_by_key_def)
qed

lemma sadd_members:
  assumes "sadd s k m = Inr s'"
  shows "members s' k' = (if k' = k then insert m (members s k) else members s k')"
  using assms
  by (auto simp: sadd_def members_def lookup_def update_conv'
      split: if_splits option.splits redis_value.splits)

lemma hset_members:
  "members (case hset s k fvs of Inl e \<Rightarrow> s | Inr s' \<Rightarrow> s') k' = members s k'"
proof (cases "hset s k fvs")
  case (Inl e)
  then show ?thesis by simp
next
  case (Inr s')
  then have "members s' k' = members s k'"
    by (auto simp: hset_def members_def lookup_def update_conv'
        split: if_splits option.splits redis_value.splits)
  with Inr show ?thesis by simp
qed

lemma hset_mirrored:
  "edges_mirrored s \<Longrightarrow> edges_mirrored (case hset s k fvs of Inl e \<Rightarrow> s | Inr s' \<Rightarrow> s')"
  by (simp add: edges_mirrored_def hset_members)

lemma two_sadds_mirrored:
  assumes "edges_mirrored s"
    and 1: "sadd s (calls_key x) y = Inr s1"
    and 2: "sadd s1 (called_by_key y) x = Inr s2"
  shows "edges_mirrored s2"
  using assms(1) unfolding edges_mirrored_def
  by (auto simp: sadd_members [OF 2] sadd_members [OF 1])

lemma addFunctionCall_mirrored:
  assumes "edges_mirrored s" "fst (addFunctionCall s x y) = None"
  shows "edges_mirrored (snd (addFunctionCall s x y))"
proof -
  from assms(2) obtain s1 s2 where
    "sadd s (calls_key x) y = Inr s1" "sadd s1 (called_by_key y) x = Inr s2"
    "snd (addFunctionCall s x y) = s2"
    by (auto simp: addFunctionCall_def split: sum.splits)
  with two_sadds_mirrored [OF assms(1)] show ?thesis by simp
qed

lemma run_commands_append:
  "snd (run_commands s (cs1 @ cs2)) = snd (run_commands (snd (run_commands s cs1)) cs2)"
  by (induction cs1 arbitrary: s) (simp_all add: case_prod_beta split: sum.splits)

lemma sadds_succeed_append:
  "sadds_succeed s (cs1 @ cs2) =
     (sadds_succeed s cs1 \<and> sadds_succeed (snd (run_commands s cs1)) cs2)"
proof (induction cs1 arbitrary: s)
  case Nil
  show ?case by simp
next
  case (Cons c cs1)
  show ?case
    by (cases c) (simp_all add: Cons.IH case_prod_beta split: sum.splits)
qed

lemma call_commands_mirrored:
  assumes "edges_mirrored s" "sadds_succeed s (call_commands name calledFunction)"
  shows "edges_mirrored (snd (run_commands s (call_commands name calledFunction)))"
proof -
  from assms(2) obtain s1 s2 where
    1: "sadd s (calls_key name) calledFunction = Inr s1" and
    2: "sadd s1 (called_by_key calledFunction) name = Inr s2"
    by (auto simp: call_commands_def split: sum.splits)
  then have "snd (run_commands s (call_commands name calledFunction)) = s2"
    by (simp add: call_commands_def)
  with two_sadds_mirrored [OF assms(1) 1 2] show ?thesis by simp
qed

lemma calls_commands_mirrored:
  "edges_mirrored s \<Longrightarrow> sadds_succeed s (concat (map (call_commands name) calls)) \<Longrightarrow>
     edges_mirrored (snd (run_commands s (concat (map (call_commands name) calls))))"
proof (induction calls arbitrary: s)
  case Nil
  then show ?case by simp
next
  case (Cons c calls)
  from Cons.prems(2) have
    1: "sadds_succeed s (call_commands name c)" and
    2: "sadds_succeed (snd (run_commands s (call_commands name c)))
          (concat (map (call_commands name) calls))"
    by (simp_all add: sadds_succeed_append)
  from Cons.IH [OF call_commands_mirrored [OF Cons.prems(1) 1] 2]
  show ?case by (simp add: run_commands_append)
qed

lemma function_commands_mirrored:
  assumes "edges_mirrored s" "sadds_succeed s (function_commands fn now)"
  shows "edges_mirrored (snd (run_commands s (function_commands fn now)))"
proof -
  let ?s1 = "case hset s (fn_key (bf_name fn)) (function_fields (bf_metadata fn) now) of
               Inl e \<Rightarrow> s | Inr s' \<Rightarrow> s'"
  let ?cs = "case bf_calls fn of None \<Rightarrow> []
             | Some calls \<Rightarrow> concat (map (call_commands (bf_name fn)) calls)"
  have 1: "edges_mirrored ?s1" using assms(1) by (rule hset_mirrored)
  have r: "snd (run_commands s (function_commands fn now)) = snd (run_commands ?s1 ?cs)"
    by (auto simp: function_commands_def split: sum.splits prod.splits)
  from assms(2) have ok: "sadds_succeed ?s1 ?cs"
    by (simp add: function_commands_def)
  have "edges_mirrored (snd (run_commands ?s1 ?cs))"
  proof (cases "bf_calls fn")
    case None
    with 1 show ?thesis by simp
  next
    case (Some calls)
    with ok calls_commands_mirrored [OF 1, of "bf_name fn" calls] show ?thesis by simp
  qed
  with r show ?thesis by simp
qed

lemma batch_commands_mirrored:
  "edges_mirrored s \<Longrightarrow>
   sadds_succeed s (concat (map (\<lambda>fn. function_commands fn now) fns)) \<Longrightarrow>
     edges_mirrored (snd (run_commands s (concat (map (\<lambda>fn. function_commands fn now) fns))))"
proof (induction fns arbitrary: s)
  case Nil
  then show ?case by simp
next
  case (Cons fn fns)
  from Cons.prems(2) have
    1: "sadds_succeed s (function_commands fn now)" and
    2: "sadds_succeed (snd (run_commands s (function_commands fn now)))
          (concat (map (\<lambda>fn. function_commands fn now) fns))"
    by (simp_all add: sadds_succeed_append)
  from Cons.IH [OF function_commands_mirrored [OF Cons.prems(1) 1] 2]
  show ?case by (simp add: run_commands_append)
qed

lemma apply_operation_mirrored:
  assumes "edges_mirrored s" "edge_writes_succeed s operation"
  shows "edges_mirrored (apply_operation s operation)"
proof (cases operation)
  case (SetFunction name m now)
  with hset_mirrored [OF assms(1), of "fn_key name" "function_fields m now"] show ?thesis
    by (simp add: setFunction_def)
next
  case (AddFunctionCall caller callee)
  with assms addFunctionCall_mirrored [of s caller callee] show ?thesis by simp
next
  case (BatchIndexFunctions fns now)
  with assms batch_commands_mirrored [of s now fns] show ?thesis
    by (auto simp: batchIndexFunctions_def exec_def split: prod.splits)
qed

lemma foldl_mirrored:
  "edges_mirrored s \<Longrightarrow> all_edge_writes_succeed s ops \<Longrightarrow>
     edges_mirrored (foldl apply_operation s ops)"
  by (induction ops arbitrary: s) (auto simp: apply_operation_mirrored)

lemma edges_mirrored_empty: "edges_mirrored empty_store"
  by (simp add: edges_mirrored_def empty_store_def members_def lookup_def)

lemma smembers_members:
  "set (case smembers s k of Inl e \<Rightarrow> [] | Inr xs \<Rightarrow> xs)
     = (if connected s then members s k else {})"
proof (cases "lookup s k")
  case None
  then show ?thesis by (simp add: smembers_def members_def)
next
  case (Some v)
  then show ?thesis by (cases v) (simp_all add: smembers_def members_def)
qed

text \<open>
  C2, as amended. In every store reached from the empty store by a sequence of
  \<^verbatim>\<open>setFunction\<close>, \<^verbatim>\<open>addFunctionCall\<close> and batch submissions in which no \<^verbatim>\<open>sadd\<close>
  command fails, for all names \<open>x\<close> and \<open>y\<close>: \<open>y\<close> is in the calls of \<open>x\<close> if and only
  if \<open>x\<close> is in the callers of \<open>y\<close>.
\<close>

theorem C2_edges_symmetric:
  assumes "all_edge_writes_succeed empty_store ops"
  shows "(y \<in> set (getFunctionCalls (run_operations ops) x))
       = (x \<in> set (getFunctionCallers (run_operations ops) y))"
proof -
  have "edges_mirrored (run_operations ops)"
    unfolding run_operations_def using edges_mirrored_empty assms by (rule foldl_mirrored)
  then show ?thesis
    by (simp add: edges_mirrored_def getFunctionCalls_def getFunctionCallers_def
        smembers_members)
qed

theorem C2_edges_symmetric_witness:
  "all_edge_writes_succeed empty_store
     [SetFunction ''a'' example_metadata 1, AddFunctionCall ''a'' ''b'',
      BatchIndexFunctions [example_batch_fn] 2] \<and>
   ''b'' \<in> set (getFunctionCalls (run_operations
     [SetFunction ''a'' example_metadata 1, AddFunctionCall ''a'' ''b'',
      BatchIndexFunctions [example_batch_fn] 2]) ''a'') \<and>
   ''a'' \<in> set (getFunctionCallers (run_operations
     [SetFunction ''a'' example_metadata 1, AddFunctionCall ''a'' ''b'',
      BatchIndexFunctions [example_batch_fn] 2]) ''b'')"
proof -
  have p: "all_edge_writes_succeed empty_store
     [SetFunction ''a'' example_metadata 1, AddFunctionCall ''a'' ''b'',
      BatchIndexFunctions [example_batch_fn] 2]"
    by code_simp
  have q: "''b'' \<in> set (getFunctionCalls (run_operations
     [SetFunction ''a'' example_metadata 1, AddFunctionCall ''a'' ''b'',
      BatchIndexFunctions [example_batch_fn] 2]) ''a'')"
    by code_simp
  from C2_edges_symmetric [OF p, of "''b''" "''a''"] p q show ?thesis by blast
qed

text \<open>
  The claim as stated fails when an \<^verbatim>\<open>sadd\<close> fails, since the two sides of an edge are
  written by two commands and the first is not undone. Here the record of a function named
  \<^verbatim>\<open>b:called_by\<close> occupies the key of the caller set of \<^verbatim>\<open>b\<close>, so recording that \<^verbatim>\<open>a\<close>
  calls \<^verbatim>\<open>b\<close> writes the calls of \<^verbatim>\<open>a\<close> and then fails on the callers of \<^verbatim>\<open>b\<close>.
\<close>

theorem C2_edges_symmetric_counterexample:
  "''b'' \<in> set (getFunctionCalls (run_operations
      [SetFunction ''b:called_by'' example_metadata 1, AddFunctionCall ''a'' ''b'']) ''a'') \<and>
   ''a'' \<notin> set (getFunctionCallers (run_operations
      [SetFunction ''b:called_by'' example_metadata 1, AddFunctionCall ''a'' ''b'']) ''b'')"
  by code_simp

end
